theory Spec2Isabelle
  imports Main "HOL-Library.Multiset"
begin

section \<open>Data model\<close>

text \<open>
  The program is a Go web application (\<^verbatim>\<open>app.go\<close> and the link store). It imports
  \<^verbatim>\<open>golang.org/x/net/html\<close>, \<^verbatim>\<open>net/url\<close>, \<^verbatim>\<open>strings\<close>, \<^verbatim>\<open>sort\<close>, \<^verbatim>\<open>database/sql\<close>,
  \<^verbatim>\<open>gorp\<close> and an RSS client. What the program reads of their types is modelled below;
  the library functions it calls are parameters of the model (record \<open>extern\<close>).
\<close>

subsection \<open>HTML nodes\<close>

text \<open>\<^verbatim>\<open>html.NodeType\<close>, an enumeration.\<close>

datatype NodeType = ErrorNode | TextNode | DocumentNode | ElementNode | CommentNode | DoctypeNode

text \<open>
  \<^verbatim>\<open>atom.Atom\<close>: an integer code for a known tag name; \<^verbatim>\<open>atom.A\<close> is the code of the
  anchor tag. The program only compares \<^verbatim>\<open>n.DataAtom\<close> with \<^verbatim>\<open>atom.A\<close>, so every other
  code is \<open>atom_other\<close>.
\<close>

datatype Atom = atom_A | atom_other

text \<open>\<^verbatim>\<open>html.Attribute\<close>.\<close>

record Attribute =
  Namespace :: string
  Key :: string
  Val :: string

text \<open>
  \<^verbatim>\<open>html.Node\<close>, read through \<^verbatim>\<open>Type\<close>, \<^verbatim>\<open>DataAtom\<close>, \<^verbatim>\<open>Data\<close>, \<^verbatim>\<open>Attr\<close>, \<^verbatim>\<open>FirstChild\<close> and
  \<^verbatim>\<open>NextSibling\<close>. A finite tree of nodes is a value of this datatype: the last
  component is the chain \<^verbatim>\<open>FirstChild, FirstChild.NextSibling, ...\<close> in order.
  (Section \<open>Pointer-level traversal\<close> below has the nodes in a store, linked by
  \<^verbatim>\<open>FirstChild\<close> and \<^verbatim>\<open>NextSibling\<close> pointers, and relates the two.)
\<close>

datatype Node = Node (Type: NodeType) (DataAtom: Atom) (Data: string)
                     (Attr: "Attribute list") (Children: "Node list")

subsection \<open>Errors, times, URLs\<close>

text \<open>
  A Go \<^verbatim>\<open>error\<close> value. \<^verbatim>\<open>sql.ErrNoRows\<close> is a sentinel compared by identity; every
  other error is known by its message (what \<^verbatim>\<open>fmt.Errorf\<close> builds and \<^verbatim>\<open>%v\<close> prints).
\<close>

datatype error = ErrNoRows | Err string

fun Error :: "error \<Rightarrow> string" where
  "Error ErrNoRows = ''sql: no rows in result set''"
| "Error (Err msg) = msg"

text \<open>
  \<^verbatim>\<open>time.Time\<close> as an instant on a line; the zero value is instant 0.
  \<^verbatim>\<open>t.IsZero()\<close> and \<^verbatim>\<open>t.Before(u)\<close>:
\<close>

type_synonym Time = int

definition IsZero :: "Time \<Rightarrow> bool" where
  "IsZero t = (t = 0)"

definition Before :: "Time \<Rightarrow> Time \<Rightarrow> bool" where
  "Before t u = (t < u)"

text \<open>\<^verbatim>\<open>url.URL\<close>; the program reads \<^verbatim>\<open>Host\<close> only.\<close>

record URL =
  Host :: string

subsection \<open>Links and articles\<close>

text \<open>
  \<^verbatim>\<open>type link struct\<close>. A composite literal that names only \<^verbatim>\<open>URL\<close>, \<^verbatim>\<open>Domain\<close> and
  \<^verbatim>\<open>Context\<close> leaves the other fields at Go's zero values.
\<close>

record link =
  link_ID :: int
  link_URL :: string
  link_Domain :: string
  link_Context :: string
  link_Queued :: bool
  link_QueuedAt :: Time

text \<open>
  \<^verbatim>\<open>type article struct\<close>. \<^verbatim>\<open>Links\<close> is a slice of \<^verbatim>\<open>*link\<close>: \<open>'l\<close> is \<open>link\<close> where the
  links are freshly built and never written again (\<^verbatim>\<open>fetch\<close>), and an address into a
  store of links where they are shared and updated (\<^verbatim>\<open>app.articles\<close>).
\<close>

record 'l article =
  article_ID :: int
  article_Title :: string
  article_URL :: string
  article_Links :: "'l list"
  article_Feed :: string
  article_Date :: Time

text \<open>The feed as \<^verbatim>\<open>rss.Fetch\<close> returns it, with the fields \<^verbatim>\<open>fetch\<close> reads.\<close>

record Item =
  item_Title :: string
  item_Link :: string
  item_Content :: string
  item_Date :: Time

record Feed =
  feed_Title :: string
  feed_Link :: string
  feed_Items :: "Item list"

subsection \<open>Library functions\<close>

text \<open>
  The library calls whose results the program branches on:
  \<^verbatim>\<open>url.Parse\<close>, \<^verbatim>\<open>strings.ToLower\<close> (Unicode-aware in Go), \<^verbatim>\<open>html.Parse\<close> (on the
  string, through \<^verbatim>\<open>strings.NewReader\<close>), \<^verbatim>\<open>rss.Fetch\<close>, and \<^verbatim>\<open>sort.Sort\<close> on a slice of
  article pointers: \<open>sort_Sort X lt xs\<close> is the slice after \<^verbatim>\<open>sort.Sort\<close> has run on \<open>xs\<close>
  with \<^verbatim>\<open>Less(i, j) = lt (xs[i]) (xs[j])\<close>.
\<close>

record extern =
  url_Parse :: "string \<Rightarrow> error + URL"
  strings_ToLower :: "string \<Rightarrow> string"
  html_Parse :: "string \<Rightarrow> error + Node"
  rss_Fetch :: "string \<Rightarrow> error + Feed"
  sort_Sort :: "(nat article \<Rightarrow> nat article \<Rightarrow> bool) \<Rightarrow> nat article list \<Rightarrow> nat article list"

text \<open>\<^verbatim>\<open>strings.Contains(s, substr)\<close>: \<open>substr\<close> occurs in \<open>s\<close> as a contiguous run.\<close>

fun strings_HasPrefix :: "string \<Rightarrow> string \<Rightarrow> bool" where
  "strings_HasPrefix s [] = True"
| "strings_HasPrefix [] (p # ps) = False"
| "strings_HasPrefix (c # s) (p # ps) = (c = p \<and> strings_HasPrefix s ps)"

fun strings_Contains :: "string \<Rightarrow> string \<Rightarrow> bool" where
  "strings_Contains [] substr = (substr = [])"
| "strings_Contains (c # s) substr =
     (strings_HasPrefix (c # s) substr \<or> strings_Contains s substr)"

section \<open>Tree traversal\<close>

text \<open>
  \<^verbatim>\<open>type visitor interface { visit(n *html.Node) visitor }\<close>.
  A visitor value is of type \<open>'v\<close>; what its method reads and writes is a state of type
  \<open>'s\<close>. \<open>visit v n s\<close> is the call \<^verbatim>\<open>v.visit(n)\<close> in state \<open>s\<close>, with \<open>n = None\<close> for
  \<^verbatim>\<open>nil\<close>: it returns the successor visitor (\<open>None\<close> for \<^verbatim>\<open>nil\<close>) and the new state.
\<close>

type_synonym ('v, 's) visit = "'v \<Rightarrow> Node option \<Rightarrow> 's \<Rightarrow> 'v option \<times> 's"

text \<open>
  \<^verbatim>\<open>
  func walkHTML(n *html.Node, v visitor) {
      vv := v.visit(n)
      if vv == nil { return }
      for child := n.FirstChild; child != nil; child = child.NextSibling {
          walkHTML(child, vv)
      }
      v.visit(nil)
  }
  \<close>
\<close>

fun walkHTML :: "('v, 's) visit \<Rightarrow> Node \<Rightarrow> 'v \<Rightarrow> 's \<Rightarrow> 's" where
  "walkHTML visit (Node ty a d at cs) v s =
     (case visit v (Some (Node ty a d at cs)) s of
        (None, s1) \<Rightarrow> s1
      | (Some vv, s1) \<Rightarrow>
          snd (visit v None (fold (\<lambda>child. walkHTML visit child vv) cs s1)))"

text \<open>
  \<^verbatim>\<open>
  func attr(n *html.Node, name string) string {
      for _, at := range n.Attr {
          if strings.ToLower(at.Key) == name { return at.Val }
      }
      return ""
  }
  \<close>
\<close>

fun attr_loop :: "extern \<Rightarrow> Attribute list \<Rightarrow> string \<Rightarrow> string" where
  "attr_loop X [] name = ''''"
| "attr_loop X (at # ats) name =
     (if strings_ToLower X (Key at) = name then Val at else attr_loop X ats name)"

definition attr :: "extern \<Rightarrow> Node \<Rightarrow> string \<Rightarrow> string" where
  "attr X n name = attr_loop X (Attr n) name"

subsection \<open>Flattening text\<close>

text \<open>
  \<^verbatim>\<open>flattenVisitor\<close> holds a \<^verbatim>\<open>bytes.Buffer\<close>; the state is the buffer's content. There is
  one visitor value per walk (the pointer \<^verbatim>\<open>&v\<close>), here \<open>()\<close>.
  \<^verbatim>\<open>
  func (v *flattenVisitor) visit(n *html.Node) visitor {
      if n == nil { return nil }
      if n.Type == html.TextNode { v.out.Write([]byte(n.Data + " ")) }
      return v
  }
  func flatten(n *html.Node) string {
      var v flattenVisitor
      walkHTML(n, &v)
      return v.out.String()
  }
  \<close>
\<close>

fun flattenVisitor_visit :: "(unit, string) visit" where
  "flattenVisitor_visit v None out = (None, out)"
| "flattenVisitor_visit v (Some n) out =
     (Some v, if Type n = TextNode then out @ (Data n @ '' '') else out)"

definition flatten :: "Node \<Rightarrow> string" where
  "flatten n = walkHTML flattenVisitor_visit n () ''''"

subsection \<open>Extracting links\<close>

text \<open>
  \<^verbatim>\<open>linkVisitor\<close>: the state is the slice \<^verbatim>\<open>v.links\<close> (the field \<^verbatim>\<open>parent\<close> is never used).
  \<^verbatim>\<open>
  func (v *linkVisitor) visit(n *html.Node) visitor {
      if n == nil { return nil }
      if n.Type == html.ElementNode && n.DataAtom == atom.A {
          if href := attr(n, "href"); href != "" {
              if url, err := url.Parse(href); err == nil {
                  v.links = append(v.links, &link{
                      URL: href, Domain: url.Host, Context: flatten(n),
                  })
              }
          }
      }
      return v
  }
  \<close>
\<close>

fun linkVisitor_visit :: "extern \<Rightarrow> (unit, link list) visit" where
  "linkVisitor_visit X v None links = (None, links)"
| "linkVisitor_visit X v (Some n) links =
     (Some v,
      if Type n = ElementNode \<and> DataAtom n = atom_A then
        (let href = attr X n ''href'' in
         if href \<noteq> '''' then
           (case url_Parse X href of
              Inr url \<Rightarrow>
                links @ [\<lparr>link_ID = 0, link_URL = href, link_Domain = Host url,
                          link_Context = flatten n,
                          link_Queued = False, link_QueuedAt = 0\<rparr>]
            | Inl err \<Rightarrow> links)
         else links)
      else links)"

text \<open>
  \<^verbatim>\<open>
  func findLinks(s string) ([]*link, error) {
      root, err := html.Parse(strings.NewReader(s))
      if err != nil { return nil, err }
      var v linkVisitor
      walkHTML(root, &v)
      return v.links, nil
  }
  \<close>
  \<open>walkLinks\<close> is the part after parsing.
\<close>

definition walkLinks :: "extern \<Rightarrow> Node \<Rightarrow> link list" where
  "walkLinks X root = walkHTML (linkVisitor_visit X) root () []"

definition findLinks :: "extern \<Rightarrow> string \<Rightarrow> error + link list" where
  "findLinks X s =
     (case html_Parse X s of
        Inl err \<Rightarrow> Inl err
      | Inr root \<Rightarrow> Inr (walkLinks X root))"

section \<open>Assembling articles from a feed\<close>

text \<open>
  The inner loop of \<^verbatim>\<open>fetch\<close>, with \<^verbatim>\<open>filtered\<close> as accumulator:
  \<^verbatim>\<open>
  var filtered []*link
  for _, link := range links {
      linkurl, err := url.Parse(link.URL)
      if err == nil && linkurl.Host == feedurl.Host { continue }
      filtered = append(filtered, link)
  }
  \<close>
\<close>

fun fetch_filter :: "extern \<Rightarrow> URL \<Rightarrow> link list \<Rightarrow> link list \<Rightarrow> link list" where
  "fetch_filter X feedurl [] filtered = filtered"
| "fetch_filter X feedurl (l # links) filtered =
     (case url_Parse X (link_URL l) of
        Inr linkurl \<Rightarrow>
          if Host linkurl = Host feedurl then fetch_filter X feedurl links filtered
          else fetch_filter X feedurl links (filtered @ [l])
      | Inl err \<Rightarrow> fetch_filter X feedurl links (filtered @ [l]))"

text \<open>
  The outer loop, with \<^verbatim>\<open>all\<close> as accumulator (\<^verbatim>\<open>log.Printf\<close> only writes to the log;
  after a failed \<^verbatim>\<open>findLinks\<close> the slice \<^verbatim>\<open>links\<close> is \<^verbatim>\<open>nil\<close>, the empty slice):
  \<^verbatim>\<open>
  for _, item := range feed.Items {
      if !strings.Contains(strings.ToLower(item.Title), "link") { continue }
      links, err := findLinks(item.Content)
      if err != nil { log.Printf("%s: %v\n", item.Title, err) }
      ... filtered ...
      if len(links) > 0 {
          all = append(all, &article{Title: item.Title, URL: item.Link,
              Links: filtered, Feed: feed.Title, Date: item.Date})
      }
  }
  \<close>
\<close>

fun fetch_loop ::
  "extern \<Rightarrow> Feed \<Rightarrow> URL \<Rightarrow> Item list \<Rightarrow> link article list \<Rightarrow> link article list" where
  "fetch_loop X feed feedurl [] all = all"
| "fetch_loop X feed feedurl (item # items) all =
     (if \<not> strings_Contains (strings_ToLower X (item_Title item)) ''link''
      then fetch_loop X feed feedurl items all
      else
        (let links = (case findLinks X (item_Content item) of
                        Inl err \<Rightarrow> [] | Inr ls \<Rightarrow> ls);
             filtered = fetch_filter X feedurl links []
         in if length links > 0
            then fetch_loop X feed feedurl items
                   (all @ [\<lparr>article_ID = 0, article_Title = item_Title item,
                            article_URL = item_Link item, article_Links = filtered,
                            article_Feed = feed_Title feed,
                            article_Date = item_Date item\<rparr>])
            else fetch_loop X feed feedurl items all))"

text \<open>
  \<^verbatim>\<open>
  func fetch(urlstr string) ([]*article, error) {
      feed, err := rss.Fetch(urlstr)
      if err != nil { return nil, err }
      feedurl, err := url.Parse(feed.Link)
      if err != nil { return nil, err }
      var all []*article
      for ... { ... }
      return all, nil
  }
  \<close>
\<close>

definition fetch :: "extern \<Rightarrow> string \<Rightarrow> error + link article list" where
  "fetch X urlstr =
     (case rss_Fetch X urlstr of
        Inl err \<Rightarrow> Inl err
      | Inr feed \<Rightarrow>
          (case url_Parse X (feed_Link feed) of
             Inl err \<Rightarrow> Inl err
           | Inr feedurl \<Rightarrow> Inr (fetch_loop X feed feedurl (feed_Items feed) [])))"

section \<open>The link store\<close>

text \<open>\<^verbatim>\<open>type articleState struct\<close> and \<^verbatim>\<open>type linkState struct\<close>, the rows of the two tables.\<close>

record articleState =
  articleState_ID :: int
  articleState_URL :: string
  articleState_DismissedAt :: Time

record linkState =
  linkState_ID :: int
  linkState_URL :: string
  linkState_ArticleURL :: string
  linkState_QueuedAt :: Time

text \<open>
  \<^verbatim>\<open>type linkStore struct\<close> wraps the database. Its two queries are
  \<^verbatim>\<open>s.db.SelectOne(&article, `SELECT * FROM articles WHERE url=? LIMIT 1`, url)\<close> and
  \<^verbatim>\<open>s.db.SelectOne(&link, `SELECT * FROM links WHERE url=? LIMIT 1`, url)\<close>; each is a
  function from \<open>url\<close> to the holder's content after the call and the error returned
  (\<open>None\<close> for \<^verbatim>\<open>nil\<close>; \<^verbatim>\<open>sql.ErrNoRows\<close> when no row matches).
\<close>

record linkStore =
  SelectOne_articles :: "string \<Rightarrow> articleState \<times> error option"
  SelectOne_links :: "string \<Rightarrow> linkState \<times> error option"

text \<open>
  \<^verbatim>\<open>
  func (s *linkStore) findArticle(url string) (*articleState, error) {
      var article articleState
      err := s.db.SelectOne(&article, `...`, url)
      if err != nil { return nil, err }
      return &article, nil
  }
  \<close>
  and \<^verbatim>\<open>findLink\<close> alike. The result is the Go pair, \<open>None\<close> for \<^verbatim>\<open>nil\<close>.
\<close>

definition findArticle :: "linkStore \<Rightarrow> string \<Rightarrow> articleState option \<times> error option" where
  "findArticle s url =
     (let (article, err) = SelectOne_articles s url
      in if err \<noteq> None then (None, err) else (Some article, None))"

definition findLink :: "linkStore \<Rightarrow> string \<Rightarrow> linkState option \<times> error option" where
  "findLink s url =
     (let (link, err) = SelectOne_links s url
      in if err \<noteq> None then (None, err) else (Some link, None))"

section \<open>Reconciling the last fetch with the store\<close>

text \<open>
  \<^verbatim>\<open>a.lastFetch\<close> is a slice of \<^verbatim>\<open>*article\<close>, each with a slice of \<^verbatim>\<open>*link\<close>.
  \<^verbatim>\<open>app.articles\<close> assigns to fields of the links it reaches, so the links live in a store
  (\<open>link_heap\<close>) and an article holds their addresses. Every address holds a link:
  \<^verbatim>\<open>fetch\<close> appends only pointers to links it has just built, never \<^verbatim>\<open>nil\<close>.
  No statement of \<^verbatim>\<open>app.articles\<close> assigns to a field of an article or to an element
  of \<^verbatim>\<open>a.lastFetch\<close> (\<^verbatim>\<open>filtered\<close> is a new slice), so articles are values.
\<close>

type_synonym link_heap = "nat \<Rightarrow> link"

record app =
  app_store :: linkStore
  app_lastFetch :: "nat article list"

text \<open>\<^verbatim>\<open>func (xs byDate) Less(i, j int) bool { return xs[i].Date.Before(xs[j].Date) }\<close>\<close>

definition byDate_Less :: "'l article \<Rightarrow> 'l article \<Rightarrow> bool" where
  "byDate_Less x y = Before (article_Date x) (article_Date y)"

text \<open>
  The inner loop of \<^verbatim>\<open>app.articles\<close>; it returns the error of an early \<^verbatim>\<open>return nil, err\<close>
  (\<open>None\<close> when the loop runs to its end) and the store of links as it leaves it:
  \<^verbatim>\<open>
  for _, link := range article.Links {
      state, err := a.store.findLink(link.URL)
      if err != nil && err != sql.ErrNoRows {
          return nil, fmt.Errorf("error while looking up link from %s in DB: %v", article.URL, err)
      }
      if state != nil {
          link.Queued = true
          link.QueuedAt = state.QueuedAt
      }
  }
  \<close>
\<close>

fun articles_links ::
  "linkStore \<Rightarrow> nat article \<Rightarrow> nat list \<Rightarrow> link_heap \<Rightarrow> error option \<times> link_heap" where
  "articles_links st a [] h = (None, h)"
| "articles_links st a (r # rs) h =
     (let (state, err) = findLink st (link_URL (h r))
      in if err \<noteq> None \<and> err \<noteq> Some ErrNoRows
         then (Some (Err (''error while looking up link from '' @ article_URL a @
                          '' in DB: '' @ Error (the err))), h)
         else (case state of
                 Some ls \<Rightarrow>
                   articles_links st a rs
                     (h(r := (h r)\<lparr>link_Queued := True,
                                     link_QueuedAt := linkState_QueuedAt ls\<rparr>))
               | None \<Rightarrow> articles_links st a rs h))"

text \<open>
  The outer loop, with \<^verbatim>\<open>filtered\<close> as accumulator:
  \<^verbatim>\<open>
  for _, article := range a.lastFetch {
      state, err := a.store.findArticle(article.URL)
      if err != nil && err != sql.ErrNoRows {
          return nil, fmt.Errorf("error while looking up article from %s in DB: %v", article.URL, err)
      }
      if state != nil && !state.DismissedAt.IsZero() {
          log.Printf("%s is dismissed", article.Title)
          continue
      }
      filtered = append(filtered, article)
      for _, link := range article.Links { ... }
  }
  \<close>
\<close>

fun articles_loop ::
  "linkStore \<Rightarrow> nat article list \<Rightarrow> nat article list \<Rightarrow> link_heap
     \<Rightarrow> (error + nat article list) \<times> link_heap" where
  "articles_loop st [] filtered h = (Inr filtered, h)"
| "articles_loop st (a # as) filtered h =
     (let (state, err) = findArticle st (article_URL a)
      in if err \<noteq> None \<and> err \<noteq> Some ErrNoRows
         then (Inl (Err (''error while looking up article from '' @ article_URL a @
                         '' in DB: '' @ Error (the err))), h)
         else if state \<noteq> None \<and> \<not> IsZero (articleState_DismissedAt (the state))
         then articles_loop st as filtered h
         else (case articles_links st a (article_Links a) h of
                 (Some e, h') \<Rightarrow> (Inl e, h')
               | (None, h') \<Rightarrow> articles_loop st as (filtered @ [a]) h'))"

text \<open>
  \<^verbatim>\<open>
  func (a *app) articles() ([]*article, error) {
      var filtered []*article
      for ... { ... }
      sort.Sort(byDate(filtered))
      return filtered, nil
  }
  \<close>
  The result is the returned error or slice, and the store of links after the call.
\<close>

definition app_articles ::
  "extern \<Rightarrow> app \<Rightarrow> link_heap \<Rightarrow> (error + nat article list) \<times> link_heap" where
  "app_articles X a h =
     (case articles_loop (app_store a) (app_lastFetch a) [] h of
        (Inl e, h') \<Rightarrow> (Inl e, h')
      | (Inr filtered, h') \<Rightarrow> (Inr (sort_Sort X byDate_Less filtered), h'))"

section \<open>Specification-level notions\<close>

text \<open>
  The definitions of this section follow the words of the specification; the theorems
  below compare them with the functions above.
\<close>

text \<open>The nodes of a tree in document order (a node before its children).\<close>

fun nodes :: "Node \<Rightarrow> Node list" where
  "nodes (Node ty a d at cs) = Node ty a d at cs # concat (map nodes cs)"

text \<open>
  The content of every text node of a subtree, in document order, each followed by one
  space.
\<close>

definition text_of :: "Node \<Rightarrow> string" where
  "text_of n = concat (map (\<lambda>t. Data t @ '' '') (filter (\<lambda>m. Type m = TextNode) (nodes n)))"

text \<open>
  The link of one node: an anchor element whose first attribute with key \<open>href\<close> (up to
  case) is present, not empty and parses as a URL gives a link with that raw value as
  \<open>URL\<close> and the parsed host as \<open>Domain\<close>; every other node gives none.
\<close>

definition anchor_link :: "extern \<Rightarrow> Node \<Rightarrow> link option" where
  "anchor_link X n =
     (if Type n = ElementNode \<and> DataAtom n = atom_A then
        (case find (\<lambda>at. strings_ToLower X (Key at) = ''href'') (Attr n) of
           None \<Rightarrow> None
         | Some at \<Rightarrow>
             if Val at = '''' then None
             else (case url_Parse X (Val at) of
                     Inl err \<Rightarrow> None
                   | Inr u \<Rightarrow>
                       Some \<lparr>link_ID = 0, link_URL = Val at, link_Domain = Host u,
                             link_Context = flatten n,
                             link_Queued = False, link_QueuedAt = 0\<rparr>))
      else None)"

text \<open>The unfiltered extraction from an item: no links when its content fails to parse.\<close>

definition extracted :: "extern \<Rightarrow> Item \<Rightarrow> link list" where
  "extracted X item =
     (case html_Parse X (item_Content item) of
        Inl err \<Rightarrow> []
      | Inr root \<Rightarrow> List.map_filter (anchor_link X) (nodes root))"

text \<open>
  The article of one feed item: emitted when the title passes the filter and the
  unfiltered extraction is not empty, with the links whose host is not the feed's.
\<close>

definition assemble :: "extern \<Rightarrow> Feed \<Rightarrow> URL \<Rightarrow> Item \<Rightarrow> link article option" where
  "assemble X feed feedurl item =
     (if strings_Contains (strings_ToLower X (item_Title item)) ''link'' \<and> extracted X item \<noteq> []
      then Some \<lparr>article_ID = 0, article_Title = item_Title item,
                 article_URL = item_Link item,
                 article_Links = filter (\<lambda>l. link_Domain l \<noteq> Host feedurl) (extracted X item),
                 article_Feed = feed_Title feed, article_Date = item_Date item\<rparr>
      else None)"

text \<open>A lookup failed with an error other than "no matching record".\<close>

definition lookup_failed :: "error option \<Rightarrow> bool" where
  "lookup_failed err = (err \<noteq> None \<and> err \<noteq> Some ErrNoRows)"

text \<open>The article's URL has a persisted state with a non-zero \<open>DismissedAt\<close>.\<close>

definition dismissed :: "linkStore \<Rightarrow> 'l article \<Rightarrow> bool" where
  "dismissed st x =
     (case fst (findArticle st (article_URL x)) of
        Some s \<Rightarrow> \<not> IsZero (articleState_DismissedAt s)
      | None \<Rightarrow> False)"

text \<open>The articles of a batch that are not dismissed, in the order of the batch.\<close>

definition retained :: "linkStore \<Rightarrow> 'l article list \<Rightarrow> 'l article list" where
  "retained st batch = filter (\<lambda>x. \<not> dismissed st x) batch"

text \<open>A link annotated from its persisted state.\<close>

definition mark_queued :: "linkState \<Rightarrow> link \<Rightarrow> link" where
  "mark_queued ls l = l\<lparr>link_Queued := True, link_QueuedAt := linkState_QueuedAt ls\<rparr>"

text \<open>
  Every link of the batch that is marked as queued has a row in the store. A batch is
  in this state when \<^verbatim>\<open>fetch\<close> has built it (no link is marked), and \<^verbatim>\<open>app.articles\<close>
  keeps it so: it marks a link only after finding its row, and the store only inserts.
\<close>

definition queued_links_have_rows :: "linkStore \<Rightarrow> link_heap \<Rightarrow> nat article list \<Rightarrow> bool" where
  "queued_links_have_rows st h batch =
     list_all (\<lambda>x. list_all (\<lambda>r. link_Queued (h r) \<longrightarrow>
                                   fst (findLink st (link_URL (h r))) \<noteq> None)
                          (article_Links x)) batch"

text \<open>The two errors \<^verbatim>\<open>app.articles\<close> builds with \<^verbatim>\<open>fmt.Errorf\<close>.\<close>

definition link_error :: "nat article \<Rightarrow> error \<Rightarrow> error" where
  "link_error x e0 =
     Err (''error while looking up link from '' @ article_URL x @ '' in DB: '' @ Error e0)"

definition article_error :: "nat article \<Rightarrow> error \<Rightarrow> error" where
  "article_error x e0 =
     Err (''error while looking up article from '' @ article_URL x @ '' in DB: '' @ Error e0)"

text \<open>
  Every lookup that reconciliation makes for an article succeeds or finds no row: the
  lookup of the article, and of each of its links unless the article is dismissed.
\<close>

definition lookups_ok :: "linkStore \<Rightarrow> link_heap \<Rightarrow> nat article \<Rightarrow> bool" where
  "lookups_ok st h x =
     (\<not> lookup_failed (snd (findArticle st (article_URL x))) \<and>
      (dismissed st x \<or>
       list_all (\<lambda>r. \<not> lookup_failed (snd (findLink st (link_URL (h r))))) (article_Links x)))"

text \<open>
  What the documentation of \<^verbatim>\<open>sort.Sort\<close> promises of its result on \<open>xs\<close>: the same
  elements, in ascending order as determined by \<^verbatim>\<open>Less\<close>. It adds: "The sort is not
  guaranteed to be stable."
\<close>

definition sort_Sort_sorts :: "extern \<Rightarrow> nat article list \<Rightarrow> bool" where
  "sort_Sort_sorts X xs =
     (mset (sort_Sort X byDate_Less xs) = mset xs \<and>
      sorted_wrt (\<lambda>x y. \<not> byDate_Less y x) (sort_Sort X byDate_Less xs))"

text \<open>
  A stable result: among the articles of each date in \<open>ds\<close>, the order of \<open>xs\<close> is kept.
\<close>

definition stable_on :: "Time list \<Rightarrow> 'l article list \<Rightarrow> 'l article list \<Rightarrow> bool" where
  "stable_on ds xs ys =
     list_all (\<lambda>d. filter (\<lambda>x. article_Date x = d) ys = filter (\<lambda>x. article_Date x = d) xs) ds"

section \<open>\<^verbatim>\<open>sort.Sort\<close>\<close>

text \<open>
  \<^verbatim>\<open>sort.Sort\<close> is library code. Since Go 1.19 it is a pattern-defeating quicksort:
  \<^verbatim>\<open>
  func Sort(data Interface) {
      n := data.Len()
      if n <= 1 { return }
      limit := bits.Len(uint(n))
      pdqsort(data, 0, n, limit)
  }
  \<close>
  This section follows that code for slices of fewer than 50 elements, up to the point
  where it would call \<^verbatim>\<open>breakPatterns\<close> or \<^verbatim>\<open>heapSort\<close>; there the functions below return \<open>None\<close>.
  \<^verbatim>\<open>Swap(i, j)\<close> of \<^verbatim>\<open>byDate\<close> is \<^verbatim>\<open>xs[i], xs[j] = xs[j], xs[i]\<close>, and \<^verbatim>\<open>Less(i, j)\<close> is
  \<open>lt (xs ! i) (xs ! j)\<close>. Go's indices are signed: an index that a loop may step below
  zero is an \<open>int\<close> here.
\<close>

definition Swap :: "'a list \<Rightarrow> nat \<Rightarrow> nat \<Rightarrow> 'a list" where
  "Swap xs i j = (xs[i := xs ! j])[j := xs ! i]"

text \<open>
  \<^verbatim>\<open>
  func insertionSort(data Interface, a, b int) {
      for i := a + 1; i < b; i++ {
          for j := i; j > a && data.Less(j, j-1); j-- { data.Swap(j, j-1) }
      }
  }
  \<close>
\<close>

function insertionSort_inner :: "('a \<Rightarrow> 'a \<Rightarrow> bool) \<Rightarrow> 'a list \<Rightarrow> nat \<Rightarrow> nat \<Rightarrow> 'a list" where
  "insertionSort_inner lt xs a j =
     (if j > a \<and> lt (xs ! j) (xs ! (j - 1))
      then insertionSort_inner lt (Swap xs j (j - 1)) a (j - 1)
      else xs)"
  by pat_completeness auto
termination
  by (relation "measure (\<lambda>(lt, xs, a, j). j)") auto

function insertionSort_outer :: "('a \<Rightarrow> 'a \<Rightarrow> bool) \<Rightarrow> 'a list \<Rightarrow> nat \<Rightarrow> nat \<Rightarrow> nat \<Rightarrow> 'a list" where
  "insertionSort_outer lt xs a b i =
     (if i < b then insertionSort_outer lt (insertionSort_inner lt xs a i) a b (i + 1)
      else xs)"
  by pat_completeness auto
termination
  by (relation "measure (\<lambda>(lt, xs, a, b, i). b - i)") auto

definition insertionSort :: "('a \<Rightarrow> 'a \<Rightarrow> bool) \<Rightarrow> 'a list \<Rightarrow> nat \<Rightarrow> nat \<Rightarrow> 'a list" where
  "insertionSort lt xs a b = insertionSort_outer lt xs a b (a + 1)"

text \<open>
  Choosing the pivot. For fewer than 50 elements (\<^verbatim>\<open>shortestNinther\<close>) it is the median of
  three, and \<open>swaps\<close> counts the exchanges made in finding it:
  \<^verbatim>\<open>
  func order2(data Interface, a, b int, swaps *int) (int, int) {
      if data.Less(b, a) { *swaps++; return b, a }
      return a, b
  }
  func median(data Interface, a, b, c int, swaps *int) int {
      a, b = order2(data, a, b, swaps)
      b, c = order2(data, b, c, swaps)
      a, b = order2(data, a, b, swaps)
      return b
  }
  func choosePivot(data Interface, a, b int) (pivot int, hint sortedHint) {
      const ( shortestNinther = 50; maxSwaps = 4 * 3 )
      l := b - a
      var ( swaps int; i = a + l/4*1; j = a + l/4*2; k = a + l/4*3 )
      if l >= 8 {
          if l >= shortestNinther { ... }
          j = median(data, i, j, k, &swaps)
      }
      switch swaps {
      case 0: return j, increasingHint
      case maxSwaps: return j, decreasingHint
      default: return j, unknownHint
      }
  }
  \<close>
\<close>

datatype sortedHint = unknownHint | increasingHint | decreasingHint

definition order2 ::
  "('a \<Rightarrow> 'a \<Rightarrow> bool) \<Rightarrow> 'a list \<Rightarrow> nat \<Rightarrow> nat \<Rightarrow> nat \<Rightarrow> nat \<times> nat \<times> nat" where
  "order2 lt xs a b swaps =
     (if lt (xs ! b) (xs ! a) then (b, a, swaps + 1) else (a, b, swaps))"

definition median ::
  "('a \<Rightarrow> 'a \<Rightarrow> bool) \<Rightarrow> 'a list \<Rightarrow> nat \<Rightarrow> nat \<Rightarrow> nat \<Rightarrow> nat \<Rightarrow> nat \<times> nat" where
  "median lt xs a b c swaps =
     (let (a, b, swaps) = order2 lt xs a b swaps;
          (b, c, swaps) = order2 lt xs b c swaps;
          (a, b, swaps) = order2 lt xs a b swaps
      in (b, swaps))"

definition choosePivot ::
  "('a \<Rightarrow> 'a \<Rightarrow> bool) \<Rightarrow> 'a list \<Rightarrow> nat \<Rightarrow> nat \<Rightarrow> nat \<times> sortedHint" where
  "choosePivot lt xs a b =
     (let l = b - a;
          i = a + l div 4 * 1;
          j = a + l div 4 * 2;
          k = a + l div 4 * 3;
          (j, swaps) = (if l \<ge> 8 then median lt xs i j k 0 else (j, 0))
      in (j, if swaps = 0 then increasingHint
             else if swaps = 4 * 3 then decreasingHint
             else unknownHint))"

text \<open>
  \<^verbatim>\<open>partialInsertionSort\<close> on fewer than 50 elements (\<^verbatim>\<open>shortestShifting\<close>) moves nothing: it
  reports whether the slice is sorted already.
  \<^verbatim>\<open>
  i := a + 1
  for j := 0; j < maxSteps; j++ {
      for i < b && !data.Less(i, i-1) { i++ }
      if i == b { return true }
      if b-a < shortestShifting { return false }
      ...
  }
  \<close>
\<close>

function sorted_run :: "('a \<Rightarrow> 'a \<Rightarrow> bool) \<Rightarrow> 'a list \<Rightarrow> nat \<Rightarrow> nat \<Rightarrow> nat" where
  "sorted_run lt xs b i =
     (if i < b \<and> \<not> lt (xs ! i) (xs ! (i - 1)) then sorted_run lt xs b (i + 1) else i)"
  by pat_completeness auto
termination
  by (relation "measure (\<lambda>(lt, xs, b, i). b - i)") auto

definition partialInsertionSort :: "('a \<Rightarrow> 'a \<Rightarrow> bool) \<Rightarrow> 'a list \<Rightarrow> nat \<Rightarrow> nat \<Rightarrow> bool" where
  "partialInsertionSort lt xs a b = (sorted_run lt xs b (a + 1) = b)"

text \<open>
  The two scans of a partition, \<^verbatim>\<open>for i <= j && P(i) { i++ }\<close> and
  \<^verbatim>\<open>for i <= j && P(j) { j-- }\<close>.
\<close>

function scan_up :: "(nat \<Rightarrow> bool) \<Rightarrow> nat \<Rightarrow> int \<Rightarrow> nat" where
  "scan_up P i j = (if int i \<le> j \<and> P i then scan_up P (i + 1) j else i)"
  by pat_completeness auto
termination
  by (relation "measure (\<lambda>(P, i, j). nat (j + 1 - int i))") auto

function scan_down :: "(nat \<Rightarrow> bool) \<Rightarrow> nat \<Rightarrow> int \<Rightarrow> int" where
  "scan_down P i j = (if int i \<le> j \<and> P (nat j) then scan_down P i (j - 1) else j)"
  by pat_completeness auto
termination
  by (relation "measure (\<lambda>(P, i, j). nat (j + 1 - int i))") auto

declare insertionSort_inner.simps [simp del] insertionSort_outer.simps [simp del]
  sorted_run.simps [simp del] scan_up.simps [simp del] scan_down.simps [simp del]

lemma scan_up_ge: "i \<le> scan_up P i j"
  by (induction P i j rule: scan_up.induct) (subst scan_up.simps, auto)

lemma scan_up_le: "int i \<le> j + 1 \<Longrightarrow> int (scan_up P i j) \<le> j + 1"
  by (induction P i j rule: scan_up.induct) (subst scan_up.simps, auto)

lemma scan_down_le: "scan_down P i j \<le> j"
  by (induction P i j rule: scan_down.induct) (subst scan_down.simps, auto)

lemma scan_down_ge: "int i \<le> j + 1 \<Longrightarrow> int i \<le> scan_down P i j + 1"
  by (induction P i j rule: scan_down.induct) (subst scan_down.simps, auto)

text \<open>
  \<^verbatim>\<open>
  func partition(data Interface, a, b, pivot int) (newpivot int, alreadyPartitioned bool) {
      data.Swap(a, pivot)
      i, j := a+1, b-1
      for i <= j && data.Less(i, a) { i++ }
      for i <= j && !data.Less(j, a) { j-- }
      if i > j {
          data.Swap(j, a)
          return j, true
      }
      data.Swap(i, j)
      i++
      j--
      for {
          for i <= j && data.Less(i, a) { i++ }
          for i <= j && !data.Less(j, a) { j-- }
          if i > j { break }
          data.Swap(i, j)
          i++
          j--
      }
      data.Swap(j, a)
      return j, false
  }
  \<close>
  \<open>partition_loop\<close> is the \<^verbatim>\<open>for { ... }\<close>; it returns the slice and \<open>j\<close> at the \<^verbatim>\<open>break\<close>.
\<close>

function partition_loop ::
  "('a \<Rightarrow> 'a \<Rightarrow> bool) \<Rightarrow> 'a list \<Rightarrow> nat \<Rightarrow> nat \<Rightarrow> int \<Rightarrow> 'a list \<times> int" where
  "partition_loop lt xs a i j =
     (let i' = scan_up (\<lambda>i. lt (xs ! i) (xs ! a)) i j;
          j' = scan_down (\<lambda>j. \<not> lt (xs ! j) (xs ! a)) i' j
      in if int i' > j' then (xs, j')
         else partition_loop lt (Swap xs i' (nat j')) a (i' + 1) (j' - 1))"
  by pat_completeness auto
termination
proof (relation "measure (\<lambda>(lt, xs, a, i, j). nat (j + 1 - int i))", goal_cases)
  case 1
  show ?case by simp
next
  case (2 lt xs a i j i' j')
  with scan_up_ge[of i "\<lambda>i. lt (xs ! i) (xs ! a)" j]
       scan_down_le[of "\<lambda>j. \<not> lt (xs ! j) (xs ! a)" i' j]
  show ?case by auto
qed

declare partition_loop.simps [simp del]

lemma partition_loop_bounds:
  "int i \<le> j + 2 \<Longrightarrow>
     snd (partition_loop lt xs a i j) \<le> j \<and> int i \<le> snd (partition_loop lt xs a i j) + 2"
proof (induction lt xs a i j rule: partition_loop.induct)
  case (1 lt xs a i j)
  define i' where "i' = scan_up (\<lambda>i. lt (xs ! i) (xs ! a)) i j"
  define j' where "j' = scan_down (\<lambda>j. \<not> lt (xs ! j) (xs ! a)) i' j"
  have i'1: "i \<le> i'" unfolding i'_def by (rule scan_up_ge)
  have j'1: "j' \<le> j" unfolding j'_def by (rule scan_down_le)
  show ?case
  proof (cases "int i' > j'")
    case True
    have "int i' \<le> j + 1 \<or> i' = i"
      unfolding i'_def using scan_up_le[of i j] by (subst scan_up.simps) auto
    then have "int i \<le> j' + 2"
    proof
      assume "int i' \<le> j + 1"
      then have "int i' \<le> j' + 1" unfolding j'_def by (rule scan_down_ge)
      with i'1 show ?thesis by simp
    next
      assume eq: "i' = i"
      show ?thesis
      proof (cases "int i \<le> j + 1")
        case True
        with eq have "int i' \<le> j' + 1" unfolding j'_def by (intro scan_down_ge) simp
        with eq show ?thesis by simp
      next
        case False
        then have "j' = j" unfolding j'_def by (subst scan_down.simps) (simp add: eq)
        with "1.prems" show ?thesis by simp
      qed
    qed
    with True j'1 show ?thesis
      by (subst (1 2) partition_loop.simps) (simp add: i'_def[symmetric] j'_def[symmetric] Let_def)
  next
    case False
    from "1.IH"[OF i'_def j'_def False] False
    have "snd (partition_loop lt (Swap xs i' (nat j')) a (i' + 1) (j' - 1)) \<le> j' - 1 \<and>
          int (i' + 1) \<le> snd (partition_loop lt (Swap xs i' (nat j')) a (i' + 1) (j' - 1)) + 2"
      by simp
    with False i'1 j'1 show ?thesis
      by (subst (1 2) partition_loop.simps) (simp add: i'_def[symmetric] j'_def[symmetric] Let_def)
  qed
qed

definition partition_go ::
  "('a \<Rightarrow> 'a \<Rightarrow> bool) \<Rightarrow> 'a list \<Rightarrow> nat \<Rightarrow> nat \<Rightarrow> nat \<Rightarrow> 'a list \<times> nat \<times> bool" where
  "partition_go lt xs0 a b pivot =
     (let xs = Swap xs0 a pivot;
          i = scan_up (\<lambda>i. lt (xs ! i) (xs ! a)) (a + 1) (int b - 1);
          j = scan_down (\<lambda>j. \<not> lt (xs ! j) (xs ! a)) i (int b - 1)
      in if int i > j then (Swap xs (nat j) a, nat j, True)
         else (let (ys, j') = partition_loop lt (Swap xs i (nat j)) a (i + 1) (j - 1)
               in (Swap ys (nat j') a, nat j', False)))"

lemma partition_go_mid:
  assumes "a < b"
  shows "a \<le> fst (snd (partition_go lt xs a b pivot)) \<and>
         fst (snd (partition_go lt xs a b pivot)) < b"
proof -
  define ys where "ys = Swap xs a pivot"
  define i where "i = scan_up (\<lambda>i. lt (ys ! i) (ys ! a)) (a + 1) (int b - 1)"
  define j where "j = scan_down (\<lambda>j. \<not> lt (ys ! j) (ys ! a)) i (int b - 1)"
  have i1: "a + 1 \<le> i" unfolding i_def by (rule scan_up_ge)
  from assms have "int i \<le> (int b - 1) + 1" unfolding i_def by (intro scan_up_le) simp
  then have j1: "int i \<le> j + 1" unfolding j_def by (rule scan_down_ge)
  have j2: "j \<le> int b - 1" unfolding j_def by (rule scan_down_le)
  have eq: "partition_go lt xs a b pivot =
      (if int i > j then (Swap ys (nat j) a, nat j, True)
       else (Swap (fst (partition_loop lt (Swap ys i (nat j)) a (i + 1) (j - 1)))
               (nat (snd (partition_loop lt (Swap ys i (nat j)) a (i + 1) (j - 1)))) a,
             nat (snd (partition_loop lt (Swap ys i (nat j)) a (i + 1) (j - 1))), False))"
    by (simp add: partition_go_def Let_def ys_def i_def j_def split: prod.splits)
  show ?thesis
  proof (cases "int i > j")
    case True
    with i1 j1 j2 show ?thesis
      by (simp add: eq) linarith
  next
    case False
    then have "int (i + 1) \<le> (j - 1) + 2" by simp
    from partition_loop_bounds[OF this, of lt "Swap ys i (nat j)" a] False i1 j2 show ?thesis
      by (simp add: eq) linarith
  qed
qed

lemma partition_go_left:
  "a < b \<Longrightarrow> fst (snd (partition_go lt xs a b pivot)) - a < b - a"
  using partition_go_mid[of a b lt xs pivot] by linarith

lemma partition_go_right:
  "a < b \<Longrightarrow> b - Suc (fst (snd (partition_go lt xs a b pivot))) < b - a"
  using partition_go_mid[of a b lt xs pivot] by linarith

text \<open>
  \<^verbatim>\<open>
  func partitionEqual(data Interface, a, b, pivot int) (newpivot int) {
      data.Swap(a, pivot)
      i, j := a+1, b-1
      for {
          for i <= j && !data.Less(a, i) { i++ }
          for i <= j && data.Less(a, j) { j-- }
          if i > j { break }
          data.Swap(i, j)
          i++
          j--
      }
      return i
  }
  \<close>
\<close>

function partitionEqual_loop ::
  "('a \<Rightarrow> 'a \<Rightarrow> bool) \<Rightarrow> 'a list \<Rightarrow> nat \<Rightarrow> nat \<Rightarrow> int \<Rightarrow> 'a list \<times> nat" where
  "partitionEqual_loop lt xs a i j =
     (let i' = scan_up (\<lambda>i. \<not> lt (xs ! a) (xs ! i)) i j;
          j' = scan_down (\<lambda>j. lt (xs ! a) (xs ! j)) i' j
      in if int i' > j' then (xs, i')
         else partitionEqual_loop lt (Swap xs i' (nat j')) a (i' + 1) (j' - 1))"
  by pat_completeness auto
termination
proof (relation "measure (\<lambda>(lt, xs, a, i, j). nat (j + 1 - int i))", goal_cases)
  case 1
  show ?case by simp
next
  case (2 lt xs a i j i' j')
  with scan_up_ge[of i "\<lambda>i. \<not> lt (xs ! a) (xs ! i)" j]
       scan_down_le[of "\<lambda>j. lt (xs ! a) (xs ! j)" i' j]
  show ?case by auto
qed

declare partitionEqual_loop.simps [simp del]

lemma partitionEqual_loop_ge: "i \<le> snd (partitionEqual_loop lt xs a i j)"
proof (induction lt xs a i j rule: partitionEqual_loop.induct)
  case (1 lt xs a i j)
  define i' where "i' = scan_up (\<lambda>i. \<not> lt (xs ! a) (xs ! i)) i j"
  define j' where "j' = scan_down (\<lambda>j. lt (xs ! a) (xs ! j)) i' j"
  have i'1: "i \<le> i'" unfolding i'_def by (rule scan_up_ge)
  show ?case
  proof (cases "int i' > j'")
    case True
    with i'1 show ?thesis
      by (subst partitionEqual_loop.simps) (simp add: i'_def[symmetric] j'_def[symmetric] Let_def)
  next
    case False
    from "1.IH"[OF i'_def j'_def False] False i'1 show ?thesis
      by (subst partitionEqual_loop.simps) (simp add: i'_def[symmetric] j'_def[symmetric] Let_def)
  qed
qed

definition partitionEqual ::
  "('a \<Rightarrow> 'a \<Rightarrow> bool) \<Rightarrow> 'a list \<Rightarrow> nat \<Rightarrow> nat \<Rightarrow> nat \<Rightarrow> 'a list \<times> nat" where
  "partitionEqual lt xs a b pivot =
     partitionEqual_loop lt (Swap xs a pivot) a (a + 1) (int b - 1)"

lemma partitionEqual_right:
  "a < b \<Longrightarrow> b - snd (partitionEqual lt xs a b pivot) < b - a"
  using partitionEqual_loop_ge[of "a + 1" lt "Swap xs a pivot" a "int b - 1"]
  by (simp add: partitionEqual_def)

text \<open>
  \<^verbatim>\<open>
  func pdqsort(data Interface, a, b, limit int) {
      const maxInsertion = 12
      var ( wasBalanced = true; wasPartitioned = true )
      for {
          length := b - a
          if length <= maxInsertion {
              insertionSort(data, a, b)
              return
          }
          if limit == 0 {
              heapSort(data, a, b)
              return
          }
          if !wasBalanced {
              breakPatterns(data, a, b)
              limit--
          }
          pivot, hint := choosePivot(data, a, b)
          if hint == decreasingHint {
              reverseRange(data, a, b)
              ...
          }
          if wasBalanced && wasPartitioned && hint == increasingHint {
              if partialInsertionSort(data, a, b) { return }
          }
          if a > 0 && !data.Less(a-1, pivot) {
              mid := partitionEqual(data, a, b, pivot)
              a = mid
              continue
          }
          mid, alreadyPartitioned := partition(data, a, b, pivot)
          wasPartitioned = alreadyPartitioned
          leftLen, rightLen := mid-a, b-mid
          balanceThreshold := length / 8
          if leftLen < rightLen {
              wasBalanced = leftLen >= balanceThreshold
              pdqsort(data, a, mid, limit)
              a = mid + 1
          } else {
              wasBalanced = rightLen >= balanceThreshold
              pdqsort(data, mid+1, b, limit)
              b = mid
          }
      }
  }
  \<close>
  One round of the loop is one call of \<open>pdqsort\<close>, with the two flags as arguments. The
  result is \<open>None\<close> where the Go code goes on to \<^verbatim>\<open>heapSort\<close>, \<^verbatim>\<open>breakPatterns\<close> or
  \<^verbatim>\<open>reverseRange\<close>, or has 50 elements or more.
\<close>

function pdqsort ::
  "('a \<Rightarrow> 'a \<Rightarrow> bool) \<Rightarrow> 'a list \<Rightarrow> nat \<Rightarrow> nat \<Rightarrow> nat \<Rightarrow> bool \<Rightarrow> bool \<Rightarrow> 'a list option" where
  "pdqsort lt xs a b limit wasBalanced wasPartitioned =
     (if b - a \<le> 12 then Some (insertionSort lt xs a b)
      else if limit = 0 then None
      else if \<not> wasBalanced then None
      else if b - a \<ge> 50 then None
      else
        (let pivot = fst (choosePivot lt xs a b); hint = snd (choosePivot lt xs a b) in
         if hint = decreasingHint then None
         else if wasBalanced \<and> wasPartitioned \<and> hint = increasingHint \<and>
                 partialInsertionSort lt xs a b
         then Some xs
         else if a > 0 \<and> \<not> lt (xs ! (a - 1)) (xs ! pivot)
         then pdqsort lt (fst (partitionEqual lt xs a b pivot))
                (snd (partitionEqual lt xs a b pivot)) b limit wasBalanced wasPartitioned
         else
           (let ys = fst (partition_go lt xs a b pivot);
                mid = fst (snd (partition_go lt xs a b pivot));
                alreadyPartitioned = snd (snd (partition_go lt xs a b pivot));
                leftLen = mid - a;
                rightLen = b - mid;
                balanceThreshold = (b - a) div 8
            in if leftLen < rightLen
               then (case pdqsort lt ys a mid limit True True of
                       None \<Rightarrow> None
                     | Some zs \<Rightarrow>
                         pdqsort lt zs (mid + 1) b limit (leftLen \<ge> balanceThreshold)
                           alreadyPartitioned)
               else (case pdqsort lt ys (mid + 1) b limit True True of
                       None \<Rightarrow> None
                     | Some zs \<Rightarrow>
                         pdqsort lt zs a mid limit (rightLen \<ge> balanceThreshold)
                           alreadyPartitioned))))"
  by pat_completeness auto
termination
  by (relation "measure (\<lambda>(lt, xs, a, b, limit, wb, wp). b - a)")
     (simp_all add: partition_go_left partition_go_right partitionEqual_right)

declare pdqsort.simps [simp del]

text \<open>\<^verbatim>\<open>bits.Len(n)\<close>: the number of bits of \<open>n\<close>.\<close>

fun bits_Len :: "nat \<Rightarrow> nat" where
  "bits_Len n = (if n = 0 then 0 else Suc (bits_Len (n div 2)))"

declare bits_Len.simps [simp del]

definition sort_Sort_pdq :: "('a \<Rightarrow> 'a \<Rightarrow> bool) \<Rightarrow> 'a list \<Rightarrow> 'a list option" where
  "sort_Sort_pdq lt xs =
     (let n = length xs in
      if n \<le> 1 then Some xs else pdqsort lt xs 0 n (bits_Len n) True True)"

section \<open>Example data\<close>

text \<open>
  Stand-ins for the library functions, used where a statement is evaluated on an
  example. They agree with the library on the inputs of the examples:
  \<^verbatim>\<open>strings.ToLower\<close> on ASCII text, \<^verbatim>\<open>url.Parse\<close> on \<^verbatim>\<open>http://host/path\<close>, on a relative
  path (empty host) and on a malformed escape (an error), \<^verbatim>\<open>html.Parse\<close> on the two
  documents below, and \<^verbatim>\<open>sort.Sort\<close> wherever \<open>sort_Sort_pdq\<close> gives a result (where it gives
  none, the stand-in leaves the slice as it is; no example goes there).
\<close>

definition ex_ToLower :: "string \<Rightarrow> string" where
  "ex_ToLower s =
     map (\<lambda>c. case map_of (zip ''ABCDEFGHIJKLMNOPQRSTUVWXYZ'' ''abcdefghijklmnopqrstuvwxyz'') c of
                Some l \<Rightarrow> l
              | None \<Rightarrow> c) s"

definition ex_url_Parse :: "string \<Rightarrow> error + URL" where
  "ex_url_Parse s =
     (if s = ''%zz'' then Inl (Err ''parse %zz: invalid URL escape'')
      else if strings_HasPrefix s ''http://''
      then Inr \<lparr>Host = takeWhile (\<lambda>c. c \<noteq> CHR ''/'') (drop 7 s)\<rparr>
      else Inr \<lparr>Host = ''''\<rparr>)"

definition text_node :: "string \<Rightarrow> Node" where
  "text_node s = Node TextNode atom_other s [] []"

definition element :: "Atom \<Rightarrow> string \<Rightarrow> Attribute list \<Rightarrow> Node list \<Rightarrow> Node" where
  "element a tag ats cs = Node ElementNode a tag ats cs"

definition href :: "string \<Rightarrow> string \<Rightarrow> Attribute" where
  "href k v = \<lparr>Namespace = '''', Key = k, Val = v\<rparr>"

text \<open>The tree \<^verbatim>\<open>html.Parse\<close> builds around the content of a body.\<close>

definition ex_document :: "Node list \<Rightarrow> Node" where
  "ex_document body =
     Node DocumentNode atom_other '''' []
       [element atom_other ''html'' []
          [element atom_other ''head'' [] [], element atom_other ''body'' [] body]]"

definition ex_a_self :: Node where
  "ex_a_self = element atom_A ''a'' [href ''href'' ''http://example.com/x''] [text_node ''self'']"

definition ex_a_out :: Node where
  "ex_a_out =
     element atom_A ''a'' [href ''href'' ''http://other.com/y'']
       [text_node ''out '', element atom_other ''b'' [] [text_node ''there'']]"

definition ex_a_empty :: Node where
  "ex_a_empty = element atom_A ''a'' [href ''href'' ''''] [text_node ''empty'']"

definition ex_a_none :: Node where
  "ex_a_none = element atom_A ''a'' [] [text_node ''none'']"

definition ex_a_bad :: Node where
  "ex_a_bad = element atom_A ''a'' [href ''href'' ''%zz''] [text_node ''bad'']"

definition ex_content :: string where
  "ex_content = ''<a href=http://example.com/x>self</a><a href=http://other.com/y>out <b>there</b></a><a href>empty</a><a>none</a><a href=%zz>bad</a>''"

definition ex_tree :: Node where
  "ex_tree = ex_document [ex_a_self, ex_a_out, ex_a_empty, ex_a_none, ex_a_bad]"

definition ex_content_self :: string where
  "ex_content_self = ''<a href=http://example.com/x>self</a>''"

definition ex_html_Parse :: "string \<Rightarrow> error + Node" where
  "ex_html_Parse s =
     (if s = ex_content then Inr ex_tree
      else if s = ex_content_self then Inr (ex_document [ex_a_self])
      else Inr (ex_document [text_node s]))"

definition ex_feed :: Feed where
  "ex_feed =
     \<lparr>feed_Title = ''Example'', feed_Link = ''http://example.com/'',
      feed_Items =
        [\<lparr>item_Title = ''Assorted Links'', item_Link = ''http://example.com/p1'',
          item_Content = ex_content, item_Date = 3\<rparr>,
         \<lparr>item_Title = ''Monday links'', item_Link = ''http://example.com/p2'',
          item_Content = ex_content_self, item_Date = 1\<rparr>,
         \<lparr>item_Title = ''Links, none today'', item_Link = ''http://example.com/p3'',
          item_Content = ''plain'', item_Date = 2\<rparr>,
         \<lparr>item_Title = ''An essay'', item_Link = ''http://example.com/p4'',
          item_Content = ex_content, item_Date = 4\<rparr>]\<rparr>"

definition ex_sort_Sort :: "('a \<Rightarrow> 'a \<Rightarrow> bool) \<Rightarrow> 'a list \<Rightarrow> 'a list" where
  "ex_sort_Sort lt xs = (case sort_Sort_pdq lt xs of Some ys \<Rightarrow> ys | None \<Rightarrow> xs)"

definition ex_extern :: extern where
  "ex_extern =
     \<lparr>url_Parse = ex_url_Parse, strings_ToLower = ex_ToLower, html_Parse = ex_html_Parse,
      rss_Fetch = (\<lambda>urlstr. Inr ex_feed), sort_Sort = ex_sort_Sort\<rparr>"

text \<open>The two links the example tree yields.\<close>

definition ex_link_self :: link where
  "ex_link_self =
     \<lparr>link_ID = 0, link_URL = ''http://example.com/x'', link_Domain = ''example.com'',
      link_Context = ''self '', link_Queued = False, link_QueuedAt = 0\<rparr>"

definition ex_link_out :: link where
  "ex_link_out =
     \<lparr>link_ID = 0, link_URL = ''http://other.com/y'', link_Domain = ''other.com'',
      link_Context = ''out  there '', link_Queued = False, link_QueuedAt = 0\<rparr>"

text \<open>
  A store with one dismissed article and one queued link, and a batch of three articles
  whose links are at addresses 0, 1 and 2.
\<close>

definition no_articleState :: articleState where
  "no_articleState = \<lparr>articleState_ID = 0, articleState_URL = '''', articleState_DismissedAt = 0\<rparr>"

definition no_linkState :: linkState where
  "no_linkState =
     \<lparr>linkState_ID = 0, linkState_URL = '''', linkState_ArticleURL = '''', linkState_QueuedAt = 0\<rparr>"

definition ex_linkState :: linkState where
  "ex_linkState =
     \<lparr>linkState_ID = 1, linkState_URL = ''http://other.com/y'', linkState_ArticleURL = '''',
      linkState_QueuedAt = 50\<rparr>"

definition ex_store :: linkStore where
  "ex_store =
     \<lparr>SelectOne_articles = (\<lambda>url.
        if url = ''http://example.com/p2''
        then (\<lparr>articleState_ID = 1, articleState_URL = url, articleState_DismissedAt = 100\<rparr>, None)
        else (no_articleState, Some ErrNoRows)),
      SelectOne_links = (\<lambda>url.
        if url = ''http://other.com/y'' then (ex_linkState, None)
        else (no_linkState, Some ErrNoRows))\<rparr>"

definition ex_link_third :: link where
  "ex_link_third =
     \<lparr>link_ID = 0, link_URL = ''http://third.com/w'', link_Domain = ''third.com'',
      link_Context = ''third '', link_Queued = False, link_QueuedAt = 0\<rparr>"

definition ex_heap :: link_heap where
  "ex_heap = (\<lambda>r. ex_link_third)(0 := ex_link_out, 2 := ex_link_self)"

definition ex_article :: "string \<Rightarrow> 'l list \<Rightarrow> Time \<Rightarrow> 'l article" where
  "ex_article url links date =
     \<lparr>article_ID = 0, article_Title = ''Links'', article_URL = url, article_Links = links,
      article_Feed = ''Example'', article_Date = date\<rparr>"

definition ex_batch :: "nat article list" where
  "ex_batch =
     [ex_article ''http://example.com/p1'' [0, 1] 3,
      ex_article ''http://example.com/p2'' [2] 1,
      ex_article ''http://example.com/p3'' [] 2]"

definition ex_app :: app where
  "ex_app = \<lparr>app_store = ex_store, app_lastFetch = ex_batch\<rparr>"

text \<open>A store in which every lookup of a link fails.\<close>

definition ex_store_locked :: linkStore where
  "ex_store_locked =
     ex_store\<lparr>SelectOne_links := (\<lambda>url. (no_linkState, Some (Err ''database is locked'')))\<rparr>"

text \<open>Seven articles, the last one older than the six before it.\<close>

definition ex_batch7 :: "nat article list" where
  "ex_batch7 =
     [ex_article ''http://example.com/1'' [] 1, ex_article ''http://example.com/2'' [] 1,
      ex_article ''http://example.com/3'' [] 1, ex_article ''http://example.com/4'' [] 1,
      ex_article ''http://example.com/5'' [] 1, ex_article ''http://example.com/6'' [] 1,
      ex_article ''http://example.com/7'' [] 0]"

section \<open>Recording the calls of a walk\<close>

text \<open>
  A visitor that behaves as \<open>visit\<close> and appends every call it receives (the visitor
  value called and the node passed) to a log kept beside the state.
\<close>

definition logged :: "('v, 's) visit \<Rightarrow> ('v, ('v \<times> Node option) list \<times> 's) visit" where
  "logged visit v n = (\<lambda>(log, s). case visit v n s of (vv, s') \<Rightarrow> (vv, (log @ [(v, n)], s')))"

text \<open>The calls \<^verbatim>\<open>walkHTML(n, v)\<close> makes from state \<open>s\<close>, in order.\<close>

definition calls :: "('v, 's) visit \<Rightarrow> Node \<Rightarrow> 'v \<Rightarrow> 's \<Rightarrow> ('v \<times> Node option) list" where
  "calls visit n v s = fst (walkHTML (logged visit) n v ([], s))"

text \<open>
  Walking each child in document order with the visitor \<open>vv\<close>: the calls of the first
  child's walk, then those of the next from the state the first walk left, and so on.
\<close>

fun calls_children ::
  "('v, 's) visit \<Rightarrow> Node list \<Rightarrow> 'v \<Rightarrow> 's \<Rightarrow> ('v \<times> Node option) list" where
  "calls_children visit [] vv s = []"
| "calls_children visit (c # cs) vv s =
     calls visit c vv s @ calls_children visit cs vv (walkHTML visit c vv s)"

section \<open>Pointer-level traversal\<close>

text \<open>
  \<^verbatim>\<open>html.Node\<close> as the library has it: nodes in a store, linked by \<^verbatim>\<open>FirstChild\<close> and
  \<^verbatim>\<open>NextSibling\<close> pointers (\<open>None\<close> for \<^verbatim>\<open>nil\<close>). Nothing in the type keeps the pointers
  from forming a cycle.
\<close>

record HNode =
  hn_Type :: NodeType
  hn_DataAtom :: Atom
  hn_Data :: string
  hn_Attr :: "Attribute list"
  hn_FirstChild :: "nat option"
  hn_NextSibling :: "nat option"

type_synonym node_store = "nat \<Rightarrow> HNode"

text \<open>
  A call \<^verbatim>\<open>v.visit(n)\<close> on a pointer; \<open>None\<close> when the call does not return.
\<close>

type_synonym ('v, 's) pvisit = "'v \<Rightarrow> nat option \<Rightarrow> 's \<Rightarrow> ('v option \<times> 's) option"

text \<open>
  \<^verbatim>\<open>walkHTML\<close> on pointers. On a cyclic structure the Go function does not return, so
  the first argument bounds the depth of nested calls and loop iterations, and \<open>None\<close>
  says the bound was reached (or a call of \<open>visit\<close> did not return).
  \<open>walk_siblings\<close> is the loop
  \<^verbatim>\<open>for child := n.FirstChild; child != nil; child = child.NextSibling { walkHTML(child, vv) }\<close>
  from \<open>child\<close> on.
\<close>

fun walkHTML_ptr :: "nat \<Rightarrow> node_store \<Rightarrow> ('v, 's) pvisit \<Rightarrow> nat \<Rightarrow> 'v \<Rightarrow> 's \<Rightarrow> 's option"
  and walk_siblings :: "nat \<Rightarrow> node_store \<Rightarrow> ('v, 's) pvisit \<Rightarrow> nat option \<Rightarrow> 'v \<Rightarrow> 's \<Rightarrow> 's option"
  where
  "walkHTML_ptr 0 H visit n v s = None"
| "walkHTML_ptr (Suc k) H visit n v s =
     (case visit v (Some n) s of
        None \<Rightarrow> None
      | Some (None, s1) \<Rightarrow> Some s1
      | Some (Some vv, s1) \<Rightarrow>
          (case walk_siblings k H visit (hn_FirstChild (H n)) vv s1 of
             None \<Rightarrow> None
           | Some s2 \<Rightarrow> map_option snd (visit v None s2)))"
| "walk_siblings 0 H visit child vv s = None"
| "walk_siblings (Suc k) H visit None vv s = Some s"
| "walk_siblings (Suc k) H visit (Some child) vv s =
     (case walkHTML_ptr k H visit child vv s of
        None \<Rightarrow> None
      | Some s1 \<Rightarrow> walk_siblings k H visit (hn_NextSibling (H child)) vv s1)"

text \<open>\<^verbatim>\<open>flattenVisitor.visit\<close> and \<^verbatim>\<open>flatten\<close> on pointers.\<close>

fun flattenVisitor_pvisit :: "node_store \<Rightarrow> (unit, string) pvisit" where
  "flattenVisitor_pvisit H v None out = Some (None, out)"
| "flattenVisitor_pvisit H v (Some n) out =
     Some (Some v, if hn_Type (H n) = TextNode then out @ (hn_Data (H n) @ '' '') else out)"

definition flatten_ptr :: "nat \<Rightarrow> node_store \<Rightarrow> nat \<Rightarrow> string option" where
  "flatten_ptr k H n = walkHTML_ptr k H (flattenVisitor_pvisit H) n () ''''"

text \<open>
  \<^verbatim>\<open>linkVisitor.visit\<close> on pointers; it calls \<^verbatim>\<open>flatten(n)\<close>, here with the bound \<open>k\<close>, and
  does not return when that call does not.
\<close>

definition linkVisitor_pvisit :: "extern \<Rightarrow> nat \<Rightarrow> node_store \<Rightarrow> (unit, link list) pvisit" where
  "linkVisitor_pvisit X k H v node links =
     (case node of
        None \<Rightarrow> Some (None, links)
      | Some n \<Rightarrow>
          if hn_Type (H n) = ElementNode \<and> hn_DataAtom (H n) = atom_A then
            (let href = attr_loop X (hn_Attr (H n)) ''href'' in
             if href \<noteq> [] then
               (case url_Parse X href of
                  Inr url \<Rightarrow>
                    (case flatten_ptr k H n of
                       None \<Rightarrow> None
                     | Some ctx \<Rightarrow>
                         Some (Some v,
                               links @ [\<lparr>link_ID = 0, link_URL = href, link_Domain = Host url,
                                         link_Context = ctx,
                                         link_Queued = False, link_QueuedAt = 0\<rparr>]))
                | Inl err \<Rightarrow> Some (Some v, links))
             else Some (Some v, links))
          else Some (Some v, links))"

definition walkLinks_ptr :: "extern \<Rightarrow> nat \<Rightarrow> node_store \<Rightarrow> nat \<Rightarrow> link list option" where
  "walkLinks_ptr X k H root = walkHTML_ptr k H (linkVisitor_pvisit X k H) root () []"

text \<open>
  The store holds the finite tree \<open>t\<close> at address \<open>p\<close>: the fields agree and the chain of
  children from \<^verbatim>\<open>FirstChild\<close> along \<^verbatim>\<open>NextSibling\<close> holds the children of \<open>t\<close> and ends in
  \<^verbatim>\<open>nil\<close>. A structure with a cycle holds no tree.
\<close>

fun is_tree :: "node_store \<Rightarrow> nat \<Rightarrow> Node \<Rightarrow> bool"
  and is_forest :: "node_store \<Rightarrow> nat option \<Rightarrow> Node list \<Rightarrow> bool" where
  "is_tree H p (Node ty a d at cs) =
     (hn_Type (H p) = ty \<and> hn_DataAtom (H p) = a \<and> hn_Data (H p) = d \<and> hn_Attr (H p) = at \<and>
      is_forest H (hn_FirstChild (H p)) cs)"
| "is_forest H None [] = True"
| "is_forest H None (c # cs) = False"
| "is_forest H (Some p) [] = False"
| "is_forest H (Some p) (c # cs) = (is_tree H p c \<and> is_forest H (hn_NextSibling (H p)) cs)"

text \<open>A bound that suffices for the walk of a tree.\<close>

fun fuel_tree :: "Node \<Rightarrow> nat" and fuel_forest :: "Node list \<Rightarrow> nat" where
  "fuel_tree (Node ty a d at cs) = Suc (fuel_forest cs)"
| "fuel_forest [] = 1"
| "fuel_forest (c # cs) = Suc (max (fuel_tree c) (fuel_forest cs))"

section \<open>Example data, continued\<close>

text \<open>The result of \<^verbatim>\<open>fetch\<close> on the example feed.\<close>

definition ex_fetched :: "link article list" where
  "ex_fetched =
     [\<lparr>article_ID = 0, article_Title = ''Assorted Links'',
       article_URL = ''http://example.com/p1'', article_Links = [ex_link_out],
       article_Feed = ''Example'', article_Date = 3\<rparr>,
      \<lparr>article_ID = 0, article_Title = ''Monday links'',
       article_URL = ''http://example.com/p2'', article_Links = [],
       article_Feed = ''Example'', article_Date = 1\<rparr>]"

text \<open>An anchor whose attribute key is in upper case, as a node built by hand may have.\<close>

definition ex_a_upper :: Node where
  "ex_a_upper = element atom_A ''a'' [href ''HREF'' ''http://other.com/y''] [text_node ''up'']"

text \<open>The example batch with the store in which link lookups fail.\<close>

definition ex_app_locked :: app where
  "ex_app_locked = \<lparr>app_store = ex_store_locked, app_lastFetch = ex_batch\<rparr>"

text \<open>
  A batch of one article whose link, at address 1, is marked as queued although the
  store has no row for it.
\<close>

definition ex_heap_queued :: link_heap where
  "ex_heap_queued = (\<lambda>r. ex_link_third\<lparr>link_Queued := True, link_QueuedAt := 7\<rparr>)"

definition ex_app_one :: app where
  "ex_app_one =
     \<lparr>app_store = ex_store, app_lastFetch = [ex_article ''http://example.com/p1'' [1] 3]\<rparr>"

text \<open>The batch of seven articles, and the order \<^verbatim>\<open>sort.Sort\<close> leaves it in.\<close>

definition ex_app7 :: app where
  "ex_app7 = \<lparr>app_store = ex_store, app_lastFetch = ex_batch7\<rparr>"

definition ex_sorted7 :: "nat article list" where
  "ex_sorted7 =
     [ex_article ''http://example.com/7'' [] 0, ex_article ''http://example.com/1'' [] 1,
      ex_article ''http://example.com/2'' [] 1, ex_article ''http://example.com/3'' [] 1,
      ex_article ''http://example.com/4'' [] 1, ex_article ''http://example.com/5'' [] 1,
      ex_article ''http://example.com/6'' [] 1]"

text \<open>
  Thirteen articles, the last one older than the twelve before it, and the order
  \<^verbatim>\<open>sort.Sort\<close> leaves them in.
\<close>

definition ex_batch13 :: "nat article list" where
  "ex_batch13 =
     [ex_article ''http://example.com/1'' [] 1, ex_article ''http://example.com/2'' [] 1,
      ex_article ''http://example.com/3'' [] 1, ex_article ''http://example.com/4'' [] 1,
      ex_article ''http://example.com/5'' [] 1, ex_article ''http://example.com/6'' [] 1,
      ex_article ''http://example.com/7'' [] 1, ex_article ''http://example.com/8'' [] 1,
      ex_article ''http://example.com/9'' [] 1, ex_article ''http://example.com/10'' [] 1,
      ex_article ''http://example.com/11'' [] 1, ex_article ''http://example.com/12'' [] 1,
      ex_article ''http://example.com/13'' [] 0]"

definition ex_app13 :: app where
  "ex_app13 = \<lparr>app_store = ex_store, app_lastFetch = ex_batch13\<rparr>"

definition ex_sorted13 :: "nat article list" where
  "ex_sorted13 =
     [ex_article ''http://example.com/13'' [] 0, ex_article ''http://example.com/7'' [] 1,
      ex_article ''http://example.com/3'' [] 1, ex_article ''http://example.com/4'' [] 1,
      ex_article ''http://example.com/5'' [] 1, ex_article ''http://example.com/6'' [] 1,
      ex_article ''http://example.com/1'' [] 1, ex_article ''http://example.com/8'' [] 1,
      ex_article ''http://example.com/9'' [] 1, ex_article ''http://example.com/10'' [] 1,
      ex_article ''http://example.com/11'' [] 1, ex_article ''http://example.com/12'' [] 1,
      ex_article ''http://example.com/2'' [] 1]"

text \<open>
  A store of nodes holding the document with the one anchor \<open>ex_a_out\<close>, at address 0,
  and a store in which every node is its own first child.
\<close>

definition hnode ::
  "NodeType \<Rightarrow> Atom \<Rightarrow> string \<Rightarrow> Attribute list \<Rightarrow> nat option \<Rightarrow> nat option \<Rightarrow> HNode" where
  "hnode ty a d at fc ns =
     \<lparr>hn_Type = ty, hn_DataAtom = a, hn_Data = d, hn_Attr = at,
      hn_FirstChild = fc, hn_NextSibling = ns\<rparr>"

definition ex_nodes :: node_store where
  "ex_nodes =
     (\<lambda>p. hnode CommentNode atom_other '''' [] None None)
       (0 := hnode DocumentNode atom_other '''' [] (Some 1) None,
        1 := hnode ElementNode atom_other ''html'' [] (Some 2) None,
        2 := hnode ElementNode atom_other ''head'' [] None (Some 3),
        3 := hnode ElementNode atom_other ''body'' [] (Some 4) None,
        4 := hnode ElementNode atom_A ''a'' [href ''href'' ''http://other.com/y''] (Some 5) None,
        5 := hnode TextNode atom_other ''out '' [] None (Some 6),
        6 := hnode ElementNode atom_other ''b'' [] (Some 7) None,
        7 := hnode TextNode atom_other ''there'' [] None None)"

definition ex_cycle :: node_store where
  "ex_cycle = (\<lambda>p. hnode ElementNode atom_other ''div'' [] (Some p) None)"

text \<open>A visitor that counts its calls and always continues.\<close>

definition counting_pvisit :: "(unit, nat) pvisit" where
  "counting_pvisit v n s = Some (Some v, Suc s)"

section \<open>Properties of the traversal and of link extraction\<close>

subsection \<open>Walks that append to a list\<close>

lemma fold_walk_append:
  assumes "\<And>c s. c \<in> set cs \<Longrightarrow> walkHTML visit c vv s = s @ g c"
  shows "fold (\<lambda>child. walkHTML visit child vv) cs s = s @ concat (map g cs)"
  using assms by (induction cs arbitrary: s) simp_all

lemma concat_concat_map: "concat (concat xss) = concat (map concat xss)"
  by (induction xss) simp_all

lemma map_filter_append:
  "List.map_filter f (xs @ ys) = List.map_filter f xs @ List.map_filter f ys"
  by (simp add: List.map_filter_def)

lemma map_filter_concat:
  "List.map_filter f (concat xss) = concat (map (List.map_filter f) xss)"
  by (induction xss) (simp_all add: map_filter_append)

lemma set_map_filter: "set (List.map_filter f xs) = {y. \<exists>x\<in>set xs. f x = Some y}"
  by (induction xs) (auto split: option.splits)

subsection \<open>Flattening\<close>

lemma text_of_Node:
  "text_of (Node ty a d at cs) =
     (if ty = TextNode then d @ '' '' else []) @ concat (map text_of cs)"
proof -
  have eq: "text_of =
      (\<lambda>x. concat (map (\<lambda>t. Data t @ '' '') (filter (\<lambda>m. Type m = TextNode) (nodes x))))"
    by (rule ext) (simp add: text_of_def)
  show ?thesis
    unfolding eq by (simp add: filter_concat comp_def map_concat concat_concat_map)
qed

lemma walk_flatten: "walkHTML flattenVisitor_visit n () out = out @ text_of n"
proof (induction n arbitrary: out)
  case (Node ty a d at cs)
  have "fold (\<lambda>child. walkHTML flattenVisitor_visit child ()) cs s = s @ concat (map text_of cs)"
    for s
    by (rule fold_walk_append) (simp add: Node.IH)
  then show ?case
    by (simp add: text_of_Node)
qed

lemma flatten_text_of: "flatten n = text_of n"
  by (simp add: flatten_def walk_flatten)

subsection \<open>The link visitor\<close>

lemma attr_loop_find:
  "attr_loop X ats name =
     (case find (\<lambda>at. strings_ToLower X (Key at) = name) ats of
        None \<Rightarrow> ''''
      | Some at \<Rightarrow> Val at)"
  by (induction ats) simp_all

lemma visit_link:
  "linkVisitor_visit X v (Some n) ls = (Some v, ls @ List.map_filter (anchor_link X) [n])"
  by (auto simp: anchor_link_def attr_def attr_loop_find Let_def split: sum.splits option.splits)

lemma walk_links:
  "walkHTML (linkVisitor_visit X) n () ls = ls @ List.map_filter (anchor_link X) (nodes n)"
proof (induction n arbitrary: ls)
  case (Node ty a d at cs)
  have "fold (\<lambda>child. walkHTML (linkVisitor_visit X) child ()) cs s
        = s @ concat (map (\<lambda>c. List.map_filter (anchor_link X) (nodes c)) cs)" for s
    by (rule fold_walk_append) (simp add: Node.IH)
  then show ?case
    using map_filter_append[of "anchor_link X" "[Node ty a d at cs]" "concat (map nodes cs)"]
    by (simp add: visit_link map_filter_concat comp_def del: linkVisitor_visit.simps(2))
qed

lemma walkLinks_map_filter: "walkLinks X root = List.map_filter (anchor_link X) (nodes root)"
  by (simp add: walkLinks_def walk_links)

lemma anchor_link_fresh:
  "anchor_link X n = Some l \<Longrightarrow> \<not> link_Queued l \<and> link_QueuedAt l = 0 \<and> link_ID l = 0"
  by (auto simp: anchor_link_def split: if_splits option.splits sum.splits)

lemma anchor_link_parse:
  "anchor_link X n = Some l \<Longrightarrow> \<exists>u. url_Parse X (link_URL l) = Inr u \<and> Host u = link_Domain l"
  by (auto simp: anchor_link_def split: if_splits option.splits sum.splits)

lemma anchor_link_Context: "anchor_link X n = Some l \<Longrightarrow> link_Context l = text_of n"
  by (auto simp: anchor_link_def flatten_text_of split: if_splits option.splits sum.splits)

lemma map_filter_Context:
  "map link_Context (List.map_filter (anchor_link X) ns) =
     map text_of (filter (\<lambda>n. anchor_link X n \<noteq> None) ns)"
  by (induction ns) (auto split: option.splits dest: anchor_link_Context)

lemmas ex_tree_defs =
  ex_extern_def ex_tree_def ex_document_def ex_a_self_def ex_a_out_def ex_a_empty_def
  ex_a_none_def ex_a_bad_def ex_a_upper_def element_def text_node_def href_def
  ex_url_Parse_def ex_ToLower_def ex_link_self_def ex_link_out_def

lemma walkLinks_example: "walkLinks ex_extern ex_tree = [ex_link_self, ex_link_out]"
  by (simp add: walkLinks_def ex_tree_defs attr_def flatten_def Let_def)

lemma walkLinks_example_upper_case_key:
  "walkLinks ex_extern ex_a_upper = [ex_link_out\<lparr>link_Context := ''up ''\<rparr>]"
  by (simp add: walkLinks_def ex_tree_defs attr_def flatten_def Let_def)

lemma findLinks_example: "findLinks ex_extern ex_content = Inr [ex_link_self, ex_link_out]"
proof -
  have "html_Parse ex_extern ex_content = Inr ex_tree"
    by (simp add: ex_extern_def ex_html_Parse_def)
  then show ?thesis
    by (simp add: findLinks_def walkLinks_example)
qed

text \<open>
  \<^bold>\<open>C1.\<close> For every tree, the links extracted are, in document order, one link for each
  anchor element whose \<open>href\<close> attribute (key compared after \<^verbatim>\<open>strings.ToLower\<close>) is
  present, not empty and parses as a URL, with \<open>URL\<close> the raw attribute value and \<open>Domain\<close>
  the parsed host; every other node, and so an anchor with an absent, empty or
  unparseable target, contributes nothing and leaves the links of the other anchors as
  they are.
\<close>

theorem walkLinks_one_link_per_anchor:
  "walkLinks X root = List.map_filter (anchor_link X) (nodes root)"
  by (simp add: walkLinks_def walk_links)

text \<open>
  \<^bold>\<open>C7.\<close> \<^verbatim>\<open>flatten(n)\<close> is the concatenation, in document order, of the content of every
  text node of the subtree of \<open>n\<close>, each followed by one space, with nothing trimmed or
  normalised; and the \<open>Context\<close> of each extracted link is that text of its anchor.
\<close>

theorem flatten_concatenates_text:
  "flatten n = text_of n \<and>
   map link_Context (walkLinks X root) =
     map text_of (filter (\<lambda>n. anchor_link X n \<noteq> None) (nodes root))"
  by (simp add: flatten_def walk_flatten walkLinks_def walk_links map_filter_Context)

text \<open>
  \<^bold>\<open>C9.\<close> Every link that \<^verbatim>\<open>findLinks\<close> returns has \<open>Queued = false\<close> and a zero \<open>QueuedAt\<close>.
\<close>

theorem findLinks_links_not_queued:
  "findLinks X s = Inr ls \<Longrightarrow> \<forall>l \<in> set ls. \<not> link_Queued l \<and> IsZero (link_QueuedAt l)"
  by (auto simp: findLinks_def walkLinks_def walk_links set_map_filter IsZero_def
      split: sum.splits dest: anchor_link_fresh)

theorem findLinks_links_not_queued_witness:
  "findLinks ex_extern ex_content = Inr [ex_link_self, ex_link_out] \<and>
   \<not> link_Queued ex_link_out \<and> IsZero (link_QueuedAt ex_link_out)"
proof -
  have run: "findLinks ex_extern ex_content = Inr [ex_link_self, ex_link_out]"
    by (rule findLinks_example)
  from findLinks_links_not_queued[OF run] run show ?thesis by simp
qed

section \<open>Properties of the assembly of articles\<close>

lemma fetch_filter_eq:
  assumes "\<forall>l \<in> set ls. \<exists>u. url_Parse X (link_URL l) = Inr u \<and> Host u = link_Domain l"
  shows "fetch_filter X feedurl ls acc = acc @ filter (\<lambda>l. link_Domain l \<noteq> Host feedurl) ls"
  using assms by (induction ls arbitrary: acc) auto

lemma findLinks_extracted:
  "(case findLinks X (item_Content item) of Inl err \<Rightarrow> [] | Inr ls \<Rightarrow> ls) = extracted X item"
  by (simp add: findLinks_def extracted_def walkLinks_map_filter split: sum.splits)

lemma extracted_parse:
  "\<forall>l \<in> set (extracted X item). \<exists>u. url_Parse X (link_URL l) = Inr u \<and> Host u = link_Domain l"
  by (auto simp: extracted_def set_map_filter split: sum.splits dest: anchor_link_parse)

lemma fetch_example: "fetch ex_extern ''http://example.com/feed'' = Inr ex_fetched"
  by (simp add: fetch_def ex_feed_def ex_fetched_def findLinks_def ex_html_Parse_def
      ex_content_def ex_content_self_def walkLinks_def ex_tree_defs attr_def flatten_def Let_def)

lemma fetch_loop_map_filter:
  "fetch_loop X feed feedurl items all = all @ List.map_filter (assemble X feed feedurl) items"
proof (induction items arbitrary: all)
  case Nil
  show ?case by simp
next
  case (Cons item items)
  show ?case
    by (simp add: Cons.IH findLinks_extracted fetch_filter_eq[OF extracted_parse] assemble_def
        Let_def)
qed

text \<open>
  \<^bold>\<open>C2.\<close> The loop of \<^verbatim>\<open>fetch\<close> appends, for each item in order, the article of that item,
  and \<^verbatim>\<open>fetch\<close> returns these articles: an item whose title passes the filter yields an
  article exactly when its unfiltered extraction is not empty, and the article's \<open>Links\<close>
  are the extracted links whose host is not the feed's host (so they may be empty).
\<close>

theorem fetch_assembles:
  "fetch_loop X feed feedurl items all = all @ List.map_filter (assemble X feed feedurl) items \<and>
   fetch X urlstr =
     (case rss_Fetch X urlstr of
        Inl err \<Rightarrow> Inl err
      | Inr feed \<Rightarrow>
          (case url_Parse X (feed_Link feed) of
             Inl err \<Rightarrow> Inl err
           | Inr feedurl \<Rightarrow>
               Inr (List.map_filter (assemble X feed feedurl) (feed_Items feed))))"
  by (simp add: fetch_def fetch_loop_map_filter split: sum.splits)

section \<open>Properties of the reconciliation\<close>

subsection \<open>The store\<close>

lemma findLink_cases:
  "(\<exists>ls. findLink st u = (Some ls, None)) \<or> (\<exists>e. findLink st u = (None, Some e))"
  by (auto simp: findLink_def split: prod.splits)

lemma findArticle_cases:
  "(\<exists>s. findArticle st u = (Some s, None)) \<or> (\<exists>e. findArticle st u = (None, Some e))"
  by (auto simp: findArticle_def split: prod.splits)

subsection \<open>The loop over the links of one article\<close>

lemma mark_queued_idem [simp]: "mark_queued ls (mark_queued ls l) = mark_queued ls l"
  by (simp add: mark_queued_def)

lemma mark_queued_URL [simp]: "link_URL (mark_queued ls l) = link_URL l"
  by (simp add: mark_queued_def)

lemma articles_links_step:
  "articles_links st a (r # rs) h =
     (case findLink st (link_URL (h r)) of
        (state, err) \<Rightarrow>
          if lookup_failed err then (Some (link_error a (the err)), h)
          else (case state of
                  Some ls \<Rightarrow> articles_links st a rs (h(r := mark_queued ls (h r)))
                | None \<Rightarrow> articles_links st a rs h))"
  by (simp add: lookup_failed_def link_error_def mark_queued_def split: prod.splits option.splits)

declare articles_links.simps(2) [simp del]

lemma articles_links_heap:
  "snd (articles_links st a rs h) r = h r \<or>
   (\<exists>ls. findLink st (link_URL (h r)) = (Some ls, None) \<and>
         snd (articles_links st a rs h) r = mark_queued ls (h r))"
proof (induction rs arbitrary: h)
  case Nil
  show ?case by simp
next
  case (Cons r0 rs)
  show ?case
  proof (cases "findLink st (link_URL (h r0))")
    case (Pair state err)
    show ?thesis
    proof (cases "lookup_failed err")
      case True
      with Pair show ?thesis by (simp add: articles_links_step)
    next
      case False
      show ?thesis
      proof (cases state)
        case None
        with Pair False Cons.IH[of h] show ?thesis by (simp add: articles_links_step)
      next
        case (Some ls)
        from findLink_cases[of st "link_URL (h r0)"] Pair Some
        have found: "findLink st (link_URL (h r0)) = (Some ls, None)" by auto
        define h1 where "h1 = h(r0 := mark_queued ls (h r0))"
        have step: "articles_links st a (r0 # rs) h = articles_links st a rs h1"
          using Pair False Some by (simp add: articles_links_step h1_def)
        note IH = Cons.IH[of h1]
        show ?thesis
        proof (cases "r = r0")
          case True
          have "h1 r = mark_queued ls (h r0)" using True by (simp add: h1_def)
          with IH found True
          have "snd (articles_links st a rs h1) r = mark_queued ls (h r0)"
            by auto
          with found True show ?thesis by (simp add: step)
        next
          case False
          then have "h1 r = h r" by (simp add: h1_def)
          with IH show ?thesis by (simp add: step)
        qed
      qed
    qed
  qed
qed

lemma articles_links_URL: "link_URL (snd (articles_links st a rs h) r) = link_URL (h r)"
  using articles_links_heap[of st a rs h r] by auto

lemma articles_links_frame:
  "r \<notin> set rs \<Longrightarrow> snd (articles_links st a rs h) r = h r"
proof (induction rs arbitrary: h)
  case Nil
  show ?case by simp
next
  case (Cons r0 rs)
  then show ?case
    by (auto simp: articles_links_step split: prod.splits option.splits)
qed

lemma articles_links_ok_iff:
  "(fst (articles_links st a rs h) = None) =
     (\<forall>r \<in> set rs. \<not> lookup_failed (snd (findLink st (link_URL (h r)))))"
proof (induction rs arbitrary: h)
  case Nil
  show ?case by simp
next
  case (Cons r0 rs)
  have upd: "link_URL ((h(r0 := mark_queued ls (h r0))) r) = link_URL (h r)" for ls r
    by simp
  show ?case
    by (auto simp: articles_links_step Cons.IH upd simp del: fun_upd_apply split: prod.splits option.splits)
qed

lemma articles_links_error:
  "fst (articles_links st a rs h) = Some e \<Longrightarrow>
     \<exists>r \<in> set rs. \<exists>e0. snd (findLink st (link_URL (h r))) = Some e0 \<and> e0 \<noteq> ErrNoRows \<and>
        e = link_error a e0"
proof (induction rs arbitrary: h)
  case Nil
  then show ?case by simp
next
  case (Cons r0 rs)
  show ?case
  proof (cases "findLink st (link_URL (h r0))")
    case (Pair state err)
    show ?thesis
    proof (cases "lookup_failed err")
      case True
      with Pair Cons.prems show ?thesis
        by (auto simp: articles_links_step lookup_failed_def)
    next
      case False
      define h1 where "h1 = (case state of Some ls \<Rightarrow> h(r0 := mark_queued ls (h r0)) | None \<Rightarrow> h)"
      have url: "link_URL (h1 r) = link_URL (h r)" for r
        by (simp add: h1_def split: option.splits)
      have step: "articles_links st a (r0 # rs) h = articles_links st a rs h1"
        using Pair False by (simp add: articles_links_step h1_def split: option.splits)
      from Cons.IH[of h1] Cons.prems show ?thesis
        by (simp add: step url)
    qed
  qed
qed

lemma articles_links_marked:
  "fst (articles_links st a rs h) = None \<Longrightarrow> r \<in> set rs \<Longrightarrow>
   fst (findLink st (link_URL (h r))) = Some ls \<Longrightarrow>
   snd (articles_links st a rs h) r = mark_queued ls (h r)"
proof (induction rs arbitrary: h)
  case Nil
  then show ?case by simp
next
  case (Cons r0 rs)
  show ?case
  proof (cases "findLink st (link_URL (h r0))")
    case (Pair state err)
    from Cons.prems(1) Pair have nf: "\<not> lookup_failed err"
      by (auto simp: articles_links_step)
    define h1 where "h1 = (case state of Some ls \<Rightarrow> h(r0 := mark_queued ls (h r0)) | None \<Rightarrow> h)"
    have url: "link_URL (h1 r) = link_URL (h r)" for r
      by (simp add: h1_def split: option.splits)
    have step: "articles_links st a (r0 # rs) h = articles_links st a rs h1"
      using Pair nf by (simp add: articles_links_step h1_def split: option.splits)
    show ?thesis
    proof (cases "r = r0")
      case True
      with Pair Cons.prems(3) have "h1 r = mark_queued ls (h r)"
        by (simp add: h1_def)
      moreover from Pair True Cons.prems(3) findLink_cases[of st "link_URL (h r)"]
      have "findLink st (link_URL (h r)) = (Some ls, None)" by auto
      ultimately show ?thesis
        using articles_links_heap[of st a rs h1 r] by (auto simp: step url)
    next
      case False
      with Cons.prems(2) have "r \<in> set rs" by simp
      moreover from False have "h1 r = h r" by (simp add: h1_def split: option.splits)
      ultimately show ?thesis
        using Cons.IH[of h1] Cons.prems(1,3) by (simp add: step url)
    qed
  qed
qed


subsection \<open>The loop over the articles\<close>

lemma articles_loop_step:
  "articles_loop st (x # xs) filtered h =
     (if lookup_failed (snd (findArticle st (article_URL x)))
      then (Inl (article_error x (the (snd (findArticle st (article_URL x))))), h)
      else if dismissed st x then articles_loop st xs filtered h
      else (case fst (articles_links st x (article_Links x) h) of
              Some e \<Rightarrow> (Inl e, snd (articles_links st x (article_Links x) h))
            | None \<Rightarrow> articles_loop st xs (filtered @ [x])
                       (snd (articles_links st x (article_Links x) h))))"
  using findArticle_cases[of st "article_URL x"]
  by (auto simp: lookup_failed_def article_error_def dismissed_def split: prod.splits option.splits)

declare articles_loop.simps(2) [simp del]

lemma articles_loop_cases:
  obtains
    (fail) "lookup_failed (snd (findArticle st (article_URL x)))"
      "articles_loop st (x # xs) filtered h =
         (Inl (article_error x (the (snd (findArticle st (article_URL x))))), h)"
  | (dismissed) "\<not> lookup_failed (snd (findArticle st (article_URL x)))" "dismissed st x"
      "articles_loop st (x # xs) filtered h = articles_loop st xs filtered h"
  | (link_error) e where "\<not> lookup_failed (snd (findArticle st (article_URL x)))"
      "\<not> dismissed st x" "fst (articles_links st x (article_Links x) h) = Some e"
      "articles_loop st (x # xs) filtered h =
         (Inl e, snd (articles_links st x (article_Links x) h))"
  | (ok) "\<not> lookup_failed (snd (findArticle st (article_URL x)))"
      "\<not> dismissed st x" "fst (articles_links st x (article_Links x) h) = None"
      "articles_loop st (x # xs) filtered h =
         articles_loop st xs (filtered @ [x]) (snd (articles_links st x (article_Links x) h))"
  by (cases "fst (articles_links st x (article_Links x) h)") (auto simp: articles_loop_step)

lemma mark_twice:
  assumes "l1 = l0 \<or> (\<exists>ls. findLink st (link_URL l0) = (Some ls, None) \<and> l1 = mark_queued ls l0)"
    and "l2 = l1 \<or> (\<exists>ls. findLink st (link_URL l1) = (Some ls, None) \<and> l2 = mark_queued ls l1)"
  shows "l2 = l0 \<or> (\<exists>ls. findLink st (link_URL l0) = (Some ls, None) \<and> l2 = mark_queued ls l0)"
  using assms by auto

lemma articles_loop_heap:
  "snd (articles_loop st xs filtered h) r = h r \<or>
   (\<exists>ls. findLink st (link_URL (h r)) = (Some ls, None) \<and>
         snd (articles_loop st xs filtered h) r = mark_queued ls (h r))"
proof (induction xs arbitrary: filtered h)
  case Nil
  show ?case by simp
next
  case (Cons x xs)
  define h1 where "h1 = snd (articles_links st x (article_Links x) h)"
  have one: "h1 r = h r \<or> (\<exists>ls. findLink st (link_URL (h r)) = (Some ls, None) \<and> h1 r = mark_queued ls (h r))"
    unfolding h1_def by (rule articles_links_heap)
  show ?case
  proof (cases rule: articles_loop_cases[of st x xs filtered h])
    case fail
    then show ?thesis by simp
  next
    case dismissed
    with Cons.IH[of filtered h] show ?thesis by simp
  next
    case (link_error e)
    with one show ?thesis by (simp add: h1_def)
  next
    case ok
    then have step: "articles_loop st (x # xs) filtered h = articles_loop st xs (filtered @ [x]) h1"
      by (simp add: h1_def)
    show ?thesis
      unfolding step using one Cons.IH[of "filtered @ [x]" h1] by (rule mark_twice)
  qed
qed

lemma articles_loop_URL: "link_URL (snd (articles_loop st xs filtered h) r) = link_URL (h r)"
  using articles_loop_heap[of st xs filtered h r] by auto

lemma articles_loop_changed:
  "snd (articles_loop st xs filtered h) r \<noteq> h r \<Longrightarrow>
     \<exists>x \<in> set xs. \<not> dismissed st x \<and> r \<in> set (article_Links x)"
proof (induction xs arbitrary: filtered h)
  case Nil
  then show ?case by simp
next
  case (Cons x xs)
  define h1 where "h1 = snd (articles_links st x (article_Links x) h)"
  have frame: "r \<notin> set (article_Links x) \<Longrightarrow> h1 r = h r"
    unfolding h1_def by (rule articles_links_frame)
  show ?case
  proof (cases rule: articles_loop_cases[of st x xs filtered h])
    case fail
    with Cons.prems show ?thesis by simp
  next
    case dismissed
    with Cons.prems have "snd (articles_loop st xs filtered h) r \<noteq> h r" by simp
    from Cons.IH[OF this] show ?thesis by auto
  next
    case (link_error e)
    with Cons.prems frame show ?thesis by (auto simp: h1_def)
  next
    case ok
    show ?thesis
    proof (cases "r \<in> set (article_Links x)")
      case True
      with ok show ?thesis by auto
    next
      case False
      with frame have "h1 r = h r" by simp
      with Cons.prems ok have "snd (articles_loop st xs (filtered @ [x]) h1) r \<noteq> h1 r"
        by (simp add: h1_def)
      from Cons.IH[OF this] show ?thesis by auto
    qed
  qed
qed

lemma articles_loop_out:
  "fst (articles_loop st xs filtered h) = Inr out \<Longrightarrow>
     out = filtered @ filter (\<lambda>x. \<not> dismissed st x) xs"
proof (induction xs arbitrary: filtered h)
  case Nil
  then show ?case by simp
next
  case (Cons x xs)
  show ?case
  proof (cases rule: articles_loop_cases[of st x xs filtered h])
    case fail
    with Cons.prems show ?thesis by simp
  next
    case dismissed
    with Cons.prems Cons.IH[of filtered h] show ?thesis by simp
  next
    case (link_error e)
    with Cons.prems show ?thesis by simp
  next
    case ok
    with Cons.prems Cons.IH[of "filtered @ [x]" "snd (articles_links st x (article_Links x) h)"]
    show ?thesis by simp
  qed
qed

lemma articles_loop_ok_iff:
  "(\<exists>out. fst (articles_loop st xs filtered h) = Inr out) = list_all (lookups_ok st h) xs"
proof (induction xs arbitrary: filtered h)
  case Nil
  show ?case by simp
next
  case (Cons x xs)
  define h1 where "h1 = snd (articles_links st x (article_Links x) h)"
  have url: "link_URL (h1 r) = link_URL (h r)" for r
    unfolding h1_def by (rule articles_links_URL)
  have ok1: "lookups_ok st h1 = lookups_ok st h"
    by (rule ext) (simp add: lookups_ok_def url)
  have links: "(fst (articles_links st x (article_Links x) h) = None) =
     list_all (\<lambda>r. \<not> lookup_failed (snd (findLink st (link_URL (h r))))) (article_Links x)"
    by (simp add: articles_links_ok_iff list_all_iff)
  show ?case
  proof (cases rule: articles_loop_cases[of st x xs filtered h])
    case fail
    then show ?thesis by (simp add: lookups_ok_def)
  next
    case dismissed
    with Cons.IH[of filtered h] show ?thesis by (simp add: lookups_ok_def)
  next
    case (link_error e)
    with links show ?thesis by (simp add: lookups_ok_def)
  next
    case ok
    with links have "lookups_ok st h x" by (simp add: lookups_ok_def)
    with ok Cons.IH[of "filtered @ [x]" h1] show ?thesis
      by (simp add: h1_def[symmetric] ok1)
  qed
qed

lemma articles_loop_error:
  "fst (articles_loop st xs filtered h) = Inl e \<Longrightarrow>
     \<exists>x \<in> set xs. \<exists>e0. e0 \<noteq> ErrNoRows \<and>
       ((snd (findArticle st (article_URL x)) = Some e0 \<and> e = article_error x e0) \<or>
        (\<not> dismissed st x \<and>
         (\<exists>r \<in> set (article_Links x).
             snd (findLink st (link_URL (h r))) = Some e0 \<and> e = link_error x e0)))"
proof (induction xs arbitrary: filtered h)
  case Nil
  then show ?case by simp
next
  case (Cons x xs)
  define h1 where "h1 = snd (articles_links st x (article_Links x) h)"
  have url: "link_URL (h1 r) = link_URL (h r)" for r
    unfolding h1_def by (rule articles_links_URL)
  show ?case
  proof (cases rule: articles_loop_cases[of st x xs filtered h])
    case fail
    with Cons.prems show ?thesis
      by (auto simp: lookup_failed_def)
  next
    case dismissed
    with Cons.prems have "fst (articles_loop st xs filtered h) = Inl e" by simp
    from Cons.IH[OF this] show ?thesis by auto
  next
    case (link_error e1)
    with Cons.prems have "e1 = e" by simp
    with link_error articles_links_error[of st x "article_Links x" h e]
    show ?thesis by auto
  next
    case ok
    with Cons.prems have "fst (articles_loop st xs (filtered @ [x]) h1) = Inl e"
      by (simp add: h1_def)
    from Cons.IH[OF this] show ?thesis by (auto simp: url)
  qed
qed

lemma articles_loop_marked:
  "fst (articles_loop st xs filtered h) = Inr out \<Longrightarrow> x \<in> set xs \<Longrightarrow> \<not> dismissed st x \<Longrightarrow>
   r \<in> set (article_Links x) \<Longrightarrow> fst (findLink st (link_URL (h r))) = Some ls \<Longrightarrow>
   snd (articles_loop st xs filtered h) r = mark_queued ls (h r)"
proof (induction xs arbitrary: filtered h)
  case Nil
  then show ?case by simp
next
  case (Cons y ys)
  from findLink_cases[of st "link_URL (h r)"] Cons.prems(5)
  have found: "findLink st (link_URL (h r)) = (Some ls, None)" by auto
  define h1 where "h1 = snd (articles_links st y (article_Links y) h)"
  have url: "link_URL (h1 r) = link_URL (h r)" for r
    unfolding h1_def by (rule articles_links_URL)
  have one: "h1 r = h r \<or> h1 r = mark_queued ls (h r)"
    using articles_links_heap[of st y "article_Links y" h r] found by (auto simp: h1_def)
  show ?case
  proof (cases rule: articles_loop_cases[of st y ys filtered h])
    case fail
    with Cons.prems(1) show ?thesis by simp
  next
    case dismissed
    with Cons.prems have "x \<in> set ys" by auto
    with Cons.IH[of filtered h] Cons.prems dismissed show ?thesis by simp
  next
    case (link_error e)
    with Cons.prems(1) show ?thesis by simp
  next
    case ok
    then have step: "articles_loop st (y # ys) filtered h = articles_loop st ys (filtered @ [y]) h1"
      by (simp add: h1_def)
    have rest: "snd (articles_loop st ys (filtered @ [y]) h1) r = h1 r \<or>
                snd (articles_loop st ys (filtered @ [y]) h1) r = mark_queued ls (h1 r)"
      using articles_loop_heap[of st ys "filtered @ [y]" h1 r] found by (auto simp: url)
    show ?thesis
    proof (cases "x = y")
      case True
      with ok Cons.prems(4,5) have "h1 r = mark_queued ls (h r)"
        unfolding h1_def by (simp add: articles_links_marked)
      with rest show ?thesis by (auto simp: step)
    next
      case False
      with Cons.prems(2) have "x \<in> set ys" by simp
      with Cons.IH[of "filtered @ [y]" h1] Cons.prems
      have "snd (articles_loop st ys (filtered @ [y]) h1) r = mark_queued ls (h1 r)"
        by (simp add: step url)
      with one show ?thesis by (auto simp: step)
    qed
  qed
qed

subsection \<open>The whole of \<^verbatim>\<open>app.articles\<close>\<close>

lemma app_articles_snd:
  "snd (app_articles X a h) = snd (articles_loop (app_store a) (app_lastFetch a) [] h)"
  by (simp add: app_articles_def split: prod.splits sum.splits)

lemma app_articles_fst:
  "fst (app_articles X a h) =
     (case fst (articles_loop (app_store a) (app_lastFetch a) [] h) of
        Inl e \<Rightarrow> Inl e
      | Inr filtered \<Rightarrow> Inr (sort_Sort X byDate_Less filtered))"
  by (simp add: app_articles_def split: prod.splits sum.splits)

lemma app_articles_Inr:
  assumes "app_articles X a h = (Inr out, h')"
  shows "fst (articles_loop (app_store a) (app_lastFetch a) [] h) =
           Inr (retained (app_store a) (app_lastFetch a))"
    and "out = sort_Sort X byDate_Less (retained (app_store a) (app_lastFetch a))"
    and "h' = snd (articles_loop (app_store a) (app_lastFetch a) [] h)"
proof -
  from assms obtain filtered
    where loop: "fst (articles_loop (app_store a) (app_lastFetch a) [] h) = Inr filtered"
      and out: "out = sort_Sort X byDate_Less filtered"
    by (auto simp: app_articles_def split: prod.splits sum.splits)
  from articles_loop_out[OF loop] have "filtered = retained (app_store a) (app_lastFetch a)"
    by (simp add: retained_def)
  with loop out show
    "fst (articles_loop (app_store a) (app_lastFetch a) [] h) =
       Inr (retained (app_store a) (app_lastFetch a))"
    "out = sort_Sort X byDate_Less (retained (app_store a) (app_lastFetch a))"
    by simp_all
  from assms show "h' = snd (articles_loop (app_store a) (app_lastFetch a) [] h)"
    using app_articles_snd[of X a h] by simp
qed

lemmas ex_store_defs =
  ex_app_def ex_app_locked_def ex_app_one_def ex_app7_def ex_app13_def ex_store_def
  ex_store_locked_def ex_batch_def ex_article_def ex_heap_def ex_heap_queued_def ex_link_out_def
  ex_link_self_def ex_link_third_def ex_linkState_def no_linkState_def no_articleState_def
  findArticle_def findLink_def IsZero_def

text \<open>
  \<^verbatim>\<open>sort.Sort\<close> on examples: two and three articles, and seven articles of which the last
  is the oldest, which come out in a stable order (at most 12 elements are sorted by
  insertion).
\<close>

lemma sort_Sort_pdq_two:
  "sort_Sort_pdq byDate_Less
     [ex_article ''http://example.com/p1'' [0, 1] 3, ex_article ''http://example.com/p3'' [] 2] =
   Some [ex_article ''http://example.com/p3'' [] 2 :: nat article,
         ex_article ''http://example.com/p1'' [0, 1] 3]"
  by code_simp

lemma sort_Sort_pdq_three:
  "map_option (map article_Date)
     (sort_Sort_pdq byDate_Less
        [ex_article ''http://example.com/a'' [] 3, ex_article ''http://example.com/b'' [] 1,
         ex_article ''http://example.com/c'' [] 2 :: nat article]) = Some [1, 2, 3]"
  by code_simp

lemma sort_Sort_pdq_seven:
  "sort_Sort_pdq byDate_Less ex_batch7 = Some ex_sorted7 \<and> stable_on [0, 1] ex_batch7 ex_sorted7"
  by code_simp

lemma sort_Sort_pdq_thirteen: "sort_Sort_pdq byDate_Less ex_batch13 = Some ex_sorted13"
  by code_simp

lemma sort_Sort_example:
  "sort_Sort ex_extern byDate_Less
     [ex_article ''http://example.com/p1'' [0, 1] 3, ex_article ''http://example.com/p3'' [] 2] =
   [ex_article ''http://example.com/p3'' [] 2, ex_article ''http://example.com/p1'' [0, 1] 3]"
proof -
  have "sort_Sort ex_extern = ex_sort_Sort"
    by (simp add: ex_extern_def)
  then show ?thesis
    unfolding ex_sort_Sort_def by (simp only: sort_Sort_pdq_two option.simps)
qed

lemma articles_loop_example:
  "articles_loop ex_store ex_batch [] ex_heap =
     (Inr [ex_article ''http://example.com/p1'' [0, 1] 3, ex_article ''http://example.com/p3'' [] 2],
      ex_heap(0 := mark_queued ex_linkState ex_link_out))"
  by (simp add: articles_loop.simps(2) articles_links.simps(2) ex_store_defs mark_queued_def)

lemma app_articles_example:
  "app_articles ex_extern ex_app ex_heap =
     (Inr [ex_article ''http://example.com/p3'' [] 2, ex_article ''http://example.com/p1'' [0, 1] 3],
      ex_heap(0 := mark_queued ex_linkState ex_link_out))"
  by (simp add: app_articles_def ex_app_def articles_loop_example sort_Sort_example
      del: One_nat_def)

lemma retained_example:
  "retained ex_store ex_batch =
     [ex_article ''http://example.com/p1'' [0, 1] 3, ex_article ''http://example.com/p3'' [] 2]"
  by (simp add: retained_def dismissed_def ex_store_defs)

lemma sort_example: "sort_Sort_sorts ex_extern (retained ex_store ex_batch)"
  unfolding retained_example
  by (simp add: sort_Sort_sorts_def sort_Sort_example del: One_nat_def)
     (simp add: byDate_Less_def Before_def ex_article_def)

subsection \<open>Queued links and their rows\<close>

lemma fresh_links_have_rows:
  assumes "\<forall>x \<in> set batch. \<forall>r \<in> set (article_Links x). \<not> link_Queued (h r)"
  shows "queued_links_have_rows st h batch"
  using assms by (simp add: queued_links_have_rows_def list_all_iff)

lemma app_articles_keeps_rows:
  assumes "queued_links_have_rows (app_store a) h batch"
  shows "queued_links_have_rows (app_store a) (snd (app_articles X a h)) batch"
proof -
  have "link_Queued (snd (app_articles X a h) r) \<longrightarrow>
          fst (findLink (app_store a) (link_URL (snd (app_articles X a h) r))) \<noteq> None"
    if "link_Queued (h r) \<longrightarrow> fst (findLink (app_store a) (link_URL (h r))) \<noteq> None" for r
    using that articles_loop_heap[of "app_store a" "app_lastFetch a" "[]" h r]
    by (auto simp: app_articles_snd)
  with assms show ?thesis
    by (simp add: queued_links_have_rows_def list_all_iff)
qed

lemma more_rows_keep_rows:
  assumes "queued_links_have_rows st h batch"
    and "\<forall>u. fst (findLink st u) \<noteq> None \<longrightarrow> fst (findLink st' u) \<noteq> None"
  shows "queued_links_have_rows st' h batch"
  using assms by (simp add: queued_links_have_rows_def list_all_iff)

text \<open>
  The condition cannot be dropped: a link that is marked and has no row stays marked.
\<close>

lemma marked_link_without_row:
  "\<not> queued_links_have_rows ex_store ex_heap_queued (app_lastFetch ex_app_one) \<and>
   fst (app_articles ex_extern ex_app_one ex_heap_queued) =
     Inr [ex_article ''http://example.com/p1'' [1] 3] \<and>
   findLink ex_store (link_URL (ex_heap_queued 1)) = (None, Some ErrNoRows) \<and>
   link_Queued (snd (app_articles ex_extern ex_app_one ex_heap_queued) 1)"
proof -
  have "sort_Sort_pdq byDate_Less [ex_article ''http://example.com/p1'' [1] 3 :: nat article] =
          Some [ex_article ''http://example.com/p1'' [1] 3]"
    by (simp add: sort_Sort_pdq_def)
  then show ?thesis
    by (simp add: app_articles_def articles_loop.simps(2) articles_links.simps(2)
        ex_store_defs ex_extern_def ex_sort_Sort_def queued_links_have_rows_def)
qed

text \<open>
  \<^bold>\<open>C3.\<close> For every batch in which every queued link has a row, and every store: when
  \<^verbatim>\<open>app.articles\<close> returns a list (and \<^verbatim>\<open>sort.Sort\<close> has sorted the retained articles), the list
  holds exactly the articles of the batch that are not dismissed; each link of a
  returned article whose URL has a persisted state has \<open>Queued = true\<close> and \<open>QueuedAt\<close> the
  stored time; and each link with no persisted state is as before the call and has
  \<open>Queued = false\<close>.
\<close>

theorem articles_dismissed_and_annotated:
  assumes "app_articles X a h = (Inr out, h')"
    and "sort_Sort_sorts X (retained (app_store a) (app_lastFetch a))"
    and "queued_links_have_rows (app_store a) h (app_lastFetch a)"
  shows "mset out = mset (retained (app_store a) (app_lastFetch a)) \<and>
         (\<forall>x \<in> set out. \<not> dismissed (app_store a) x) \<and>
         (\<forall>x \<in> set out. \<forall>r \<in> set (article_Links x).
            (case fst (findLink (app_store a) (link_URL (h r))) of
               Some ls \<Rightarrow>
                 h' r = mark_queued ls (h r) \<and> link_Queued (h' r) \<and>
                 link_QueuedAt (h' r) = linkState_QueuedAt ls
             | None \<Rightarrow> h' r = h r \<and> \<not> link_Queued (h' r)))"
proof -
  let ?st = "app_store a" and ?batch = "app_lastFetch a"
  note run = app_articles_Inr[OF assms(1)]
  from assms(2) run(2) have perm: "mset out = mset (retained ?st ?batch)"
    by (simp add: sort_Sort_sorts_def)
  then have members: "set out = set (retained ?st ?batch)"
    by (rule mset_eq_setD)
  have links:
    "(case fst (findLink ?st (link_URL (h r))) of
        Some ls \<Rightarrow>
          h' r = mark_queued ls (h r) \<and> link_Queued (h' r) \<and>
          link_QueuedAt (h' r) = linkState_QueuedAt ls
      | None \<Rightarrow> h' r = h r \<and> \<not> link_Queued (h' r))"
    if x: "x \<in> set out" and r: "r \<in> set (article_Links x)" for x r
  proof -
    from x members have batch: "x \<in> set ?batch" and keep: "\<not> dismissed ?st x"
      by (simp_all add: retained_def)
    show ?thesis
    proof (cases "fst (findLink ?st (link_URL (h r)))")
      case None
      from assms(3)
      have "\<forall>x \<in> set ?batch. \<forall>r \<in> set (article_Links x).
              link_Queued (h r) \<longrightarrow> fst (findLink ?st (link_URL (h r))) \<noteq> None"
        by (simp add: queued_links_have_rows_def list_all_iff)
      with batch r None have "\<not> link_Queued (h r)"
        by blast
      moreover from None articles_loop_heap[of ?st ?batch "[]" h r] run(3) have "h' r = h r"
        by auto
      ultimately show ?thesis using None by simp
    next
      case (Some ls)
      from articles_loop_marked[OF run(1) batch keep r Some] run(3)
      have "h' r = mark_queued ls (h r)" by simp
      with Some show ?thesis by (simp add: mark_queued_def)
    qed
  qed
  have kept: "\<forall>x \<in> set out. \<not> dismissed ?st x"
    using members by (simp add: retained_def)
  from perm kept links show ?thesis by blast
qed

theorem articles_dismissed_and_annotated_witness:
  "app_articles ex_extern ex_app ex_heap =
     (Inr [ex_article ''http://example.com/p3'' [] 2, ex_article ''http://example.com/p1'' [0, 1] 3],
      ex_heap(0 := mark_queued ex_linkState ex_link_out)) \<and>
   sort_Sort_sorts ex_extern (retained ex_store ex_batch) \<and>
   queued_links_have_rows ex_store ex_heap ex_batch \<and>
   \<not> dismissed ex_store (ex_article ''http://example.com/p1'' [0, 1] 3 :: nat article) \<and>
   (ex_heap(0 := mark_queued ex_linkState ex_link_out)) 0 = mark_queued ex_linkState (ex_heap 0) \<and>
   link_Queued ((ex_heap(0 := mark_queued ex_linkState ex_link_out)) 0) \<and>
   \<not> link_Queued ((ex_heap(0 := mark_queued ex_linkState ex_link_out)) 1)"
proof -
  have st: "app_store ex_app = ex_store" and batch: "app_lastFetch ex_app = ex_batch"
    by (simp_all add: ex_app_def)
  have rows: "queued_links_have_rows ex_store ex_heap ex_batch"
    by (simp add: queued_links_have_rows_def ex_batch_def ex_article_def ex_heap_def
        ex_link_out_def ex_link_self_def ex_link_third_def)
  from articles_dismissed_and_annotated[OF app_articles_example]
  have "\<forall>x \<in> set [ex_article ''http://example.com/p3'' [] 2,
                    ex_article ''http://example.com/p1'' [0, 1] 3].
          \<not> dismissed ex_store (x :: nat article)"
    using sort_example rows by (simp only: st batch) simp
  then show ?thesis
    using app_articles_example sort_example rows
    by (simp add: ex_heap_def mark_queued_def ex_link_third_def)
qed

text \<open>
  \<^bold>\<open>C5\<close>, as the code has it. After \<^verbatim>\<open>app.articles\<close>, whether it returns a list or an error,
  every link in the store is as before the call, or is the link before the call with
  \<open>Queued\<close> set and \<open>QueuedAt\<close> taken from the state found for its URL (its \<open>ID\<close>, \<open>URL\<close>,
  \<open>Domain\<close> and \<open>Context\<close> unchanged); and then it is a link of an article of the batch
  that is not dismissed.
\<close>

theorem articles_frame:
  "snd (app_articles X a h) r = h r \<or>
   (\<exists>ls. findLink (app_store a) (link_URL (h r)) = (Some ls, None) \<and>
         snd (app_articles X a h) r = mark_queued ls (h r) \<and>
         (\<exists>x \<in> set (retained (app_store a) (app_lastFetch a)). r \<in> set (article_Links x)))"
proof (cases "snd (app_articles X a h) r = h r")
  case True
  then show ?thesis by simp
next
  case False
  then have changed: "snd (articles_loop (app_store a) (app_lastFetch a) [] h) r \<noteq> h r"
    by (simp add: app_articles_snd)
  from articles_loop_changed[OF changed]
  have "\<exists>x \<in> set (retained (app_store a) (app_lastFetch a)). r \<in> set (article_Links x)"
    by (auto simp: retained_def)
  with articles_loop_heap[of "app_store a" "app_lastFetch a" "[]" h r] changed
  show ?thesis by (auto simp: app_articles_snd)
qed

theorem articles_frame_witness:
  "snd (app_articles ex_extern ex_app ex_heap) 0 = mark_queued ex_linkState (ex_heap 0) \<and>
   findLink ex_store (link_URL (ex_heap 0)) = (Some ex_linkState, None) \<and>
   0 \<in> set (article_Links (ex_article ''http://example.com/p1'' [0, 1] 3)) \<and>
   snd (app_articles ex_extern ex_app ex_heap) 1 = ex_heap 1"
proof -
  have found: "findLink ex_store (link_URL (ex_heap 0)) = (Some ex_linkState, None)"
    by (simp add: ex_store_defs)
  have changed: "snd (app_articles ex_extern ex_app ex_heap) 0 \<noteq> ex_heap 0"
    by (simp add: app_articles_example)
       (simp add: ex_heap_def mark_queued_def ex_link_out_def ex_linkState_def)
  have "app_store ex_app = ex_store" by (simp add: ex_app_def)
  with articles_frame[of ex_extern ex_app ex_heap 0] found changed
  have "snd (app_articles ex_extern ex_app ex_heap) 0 = mark_queued ex_linkState (ex_heap 0)"
    by auto
  with found show ?thesis
    by (simp add: app_articles_example ex_article_def)
qed

text \<open>
  The claim as stated fails: \<^verbatim>\<open>app.articles\<close> assigns to \<^verbatim>\<open>link.Queued\<close> and \<^verbatim>\<open>link.QueuedAt\<close>
  through the pointers held by \<^verbatim>\<open>a.lastFetch\<close>, so a link of the batch whose URL has a
  persisted state differs after the call.
\<close>

theorem articles_writes_link_in_place:
  "0 \<in> set (article_Links (hd (app_lastFetch ex_app))) \<and>
   \<not> link_Queued (ex_heap 0) \<and>
   link_Queued (snd (app_articles ex_extern ex_app ex_heap) 0)"
  by (simp add: app_articles_example mark_queued_def)
     (simp add: ex_app_def ex_batch_def ex_article_def ex_heap_def ex_link_out_def)

text \<open>
  \<^bold>\<open>C6\<close>, as the code has it. \<^verbatim>\<open>app.articles\<close> returns an error, and no list, exactly when a
  lookup it makes fails with an error other than \<^verbatim>\<open>sql.ErrNoRows\<close> (the lookup of an article
  of the batch, or of a link of an article that is not dismissed). The error names the
  URL of the article at which the loop stopped: for a failed lookup of a link that is
  the URL of the article holding the link.
\<close>

theorem articles_error_iff:
  "((\<exists>e. fst (app_articles X a h) = Inl e) =
      (\<not> list_all (lookups_ok (app_store a) h) (app_lastFetch a))) \<and>
   (\<forall>e. fst (app_articles X a h) = Inl e \<longrightarrow>
      (\<exists>x \<in> set (app_lastFetch a). \<exists>e0. e0 \<noteq> ErrNoRows \<and>
         (snd (findArticle (app_store a) (article_URL x)) = Some e0 \<and> e = article_error x e0 \<or>
          \<not> dismissed (app_store a) x \<and>
          (\<exists>r \<in> set (article_Links x).
              snd (findLink (app_store a) (link_URL (h r))) = Some e0 \<and> e = link_error x e0))))"
proof -
  let ?loop = "articles_loop (app_store a) (app_lastFetch a) [] h"
  have "(\<exists>e. fst (app_articles X a h) = Inl e) = (\<not> (\<exists>out. fst ?loop = Inr out))"
    by (cases "fst ?loop") (simp_all add: app_articles_fst)
  then have iff: "(\<exists>e. fst (app_articles X a h) = Inl e) =
      (\<not> list_all (lookups_ok (app_store a) h) (app_lastFetch a))"
    by (simp only: articles_loop_ok_iff)
  have "fst ?loop = Inl e" if "fst (app_articles X a h) = Inl e" for e
    using that by (cases "fst ?loop") (simp_all add: app_articles_fst)
  from articles_loop_error[OF this] iff show ?thesis by blast
qed

theorem articles_error_iff_witness:
  "fst (app_articles ex_extern ex_app_locked ex_heap) =
     Inl (link_error (ex_article ''http://example.com/p1'' [0, 1] 3) (Err ''database is locked'')) \<and>
   \<not> list_all (lookups_ok ex_store_locked ex_heap) ex_batch"
proof -
  have run: "fst (app_articles ex_extern ex_app_locked ex_heap) =
     Inl (link_error (ex_article ''http://example.com/p1'' [0, 1] 3) (Err ''database is locked''))"
    by (simp add: app_articles_def articles_loop.simps(2) articles_links.simps(2) ex_store_defs
        link_error_def)
  have "app_store ex_app_locked = ex_store_locked" "app_lastFetch ex_app_locked = ex_batch"
    by (simp_all add: ex_app_locked_def)
  with articles_error_iff[of ex_extern ex_app_locked ex_heap] run show ?thesis
    by auto
qed

text \<open>
  The claim as stated fails where it says the error is annotated with the offending
  URL: when the lookup of a link fails, the message names the article, and the URL whose
  lookup failed does not occur in it.
\<close>

theorem articles_link_error_names_article:
  "fst (app_articles ex_extern ex_app_locked ex_heap) =
     Inl (Err ''error while looking up link from http://example.com/p1 in DB: database is locked'') \<and>
   link_URL (ex_heap 0) = ''http://other.com/y'' \<and>
   lookup_failed (snd (findLink ex_store_locked ''http://other.com/y'')) \<and>
   \<not> strings_Contains
       ''error while looking up link from http://example.com/p1 in DB: database is locked''
       ''http://other.com/y''"
  by (simp add: app_articles_def articles_loop.simps(2) articles_links.simps(2) ex_store_defs
      lookup_failed_def)

text \<open>
  \<^bold>\<open>C4\<close>, as the code has it. When \<^verbatim>\<open>app.articles\<close> returns a list and \<^verbatim>\<open>sort.Sort\<close> has sorted the
  retained articles as its documentation promises, the list is a permutation of the
  retained articles in ascending order of \<open>Date\<close>.
\<close>

theorem articles_sorted_by_date:
  assumes "app_articles X a h = (Inr out, h')"
    and "sort_Sort_sorts X (retained (app_store a) (app_lastFetch a))"
  shows "sorted (map article_Date out) \<and>
         mset out = mset (retained (app_store a) (app_lastFetch a))"
proof -
  note run = app_articles_Inr[OF assms(1)]
  from assms(2) run(2)
  have "sorted_wrt (\<lambda>x y. \<not> byDate_Less y x) out"
    and perm: "mset out = mset (retained (app_store a) (app_lastFetch a))"
    by (simp_all add: sort_Sort_sorts_def)
  then have "sorted_wrt (\<lambda>x y. article_Date x \<le> article_Date y) out"
    by (simp add: byDate_Less_def Before_def not_less)
  with perm show ?thesis by (simp add: sorted_map)
qed

theorem articles_sorted_by_date_witness:
  "app_articles ex_extern ex_app ex_heap =
     (Inr [ex_article ''http://example.com/p3'' [] 2, ex_article ''http://example.com/p1'' [0, 1] 3],
      ex_heap(0 := mark_queued ex_linkState ex_link_out)) \<and>
   sort_Sort_sorts ex_extern (retained ex_store ex_batch) \<and>
   sorted (map article_Date
     [ex_article ''http://example.com/p3'' [] 2 :: nat article,
      ex_article ''http://example.com/p1'' [0, 1] 3])"
proof -
  have "app_store ex_app = ex_store" and "app_lastFetch ex_app = ex_batch"
    by (simp_all add: ex_app_def)
  with articles_sorted_by_date[OF app_articles_example] sort_example app_articles_example
  show ?thesis by simp
qed

text \<open>
  The claim as stated fails where it says the sort is stable. \<^verbatim>\<open>app.articles\<close> calls
  \<^verbatim>\<open>sort.Sort\<close>, not \<^verbatim>\<open>sort.Stable\<close>. On thirteen articles of which the first twelve have the
  same date and the last an earlier one, none dismissed, the partition exchanges the
  first article with the pivot (the seventh) and the second with the last: the seventh
  article ends before the five it followed, and the second behind the ten it preceded.
\<close>

theorem articles_sort_not_stable:
  "fst (app_articles ex_extern ex_app13 ex_heap) = Inr ex_sorted13 \<and>
   retained ex_store ex_batch13 = ex_batch13 \<and>
   sort_Sort_pdq byDate_Less ex_batch13 = Some ex_sorted13 \<and>
   sorted (map article_Date ex_sorted13) \<and>
   \<not> stable_on [1] ex_batch13 ex_sorted13"
proof -
  have loop: "articles_loop ex_store ex_batch13 [] ex_heap = (Inr ex_batch13, ex_heap)"
    by (simp add: articles_loop.simps(2) ex_batch13_def ex_store_defs)
  have srt: "sort_Sort ex_extern byDate_Less ex_batch13 = ex_sorted13"
    by (simp add: ex_extern_def ex_sort_Sort_def sort_Sort_pdq_thirteen)
  have run: "fst (app_articles ex_extern ex_app13 ex_heap) = Inr ex_sorted13"
    by (simp add: app_articles_def ex_app13_def loop srt)
  have kept: "retained ex_store ex_batch13 = ex_batch13"
    by (simp add: retained_def dismissed_def ex_batch13_def ex_store_defs)
  have dates: "sorted (map article_Date ex_sorted13)"
    by (simp add: ex_sorted13_def ex_article_def)
  have unstable: "\<not> stable_on [1] ex_batch13 ex_sorted13"
    by (simp add: stable_on_def ex_batch13_def ex_sorted13_def ex_article_def)
  from run kept dates unstable show ?thesis
    by (simp add: sort_Sort_pdq_thirteen)
qed

section \<open>The protocol of a walk\<close>

lemma logged_apply:
  "logged visit v n (log, s) = (fst (visit v n s), (log @ [(v, n)], snd (visit v n s)))"
  by (simp add: logged_def split: prod.splits)

lemma fold_logged:
  assumes "\<And>c v log s. c \<in> set cs \<Longrightarrow>
             walkHTML (logged visit) c v (log, s) = (log @ calls visit c v s, walkHTML visit c v s)"
  shows "fold (\<lambda>c. walkHTML (logged visit) c vv) cs (log, s) =
           (log @ calls_children visit cs vv s, fold (\<lambda>c. walkHTML visit c vv) cs s)"
  using assms by (induction cs arbitrary: log s) simp_all

text \<open>Logging changes nothing in the walk, and the walk only appends to the log.\<close>

lemma walk_logged:
  "walkHTML (logged visit) n v (log, s) = (log @ calls visit n v s, walkHTML visit n v s)"
proof (induction n arbitrary: v log s)
  case (Node ty a d at cs)
  note children = fold_logged[of cs visit, OF Node.IH]
  show ?case
    by (cases "visit v (Some (Node ty a d at cs)) s")
       (auto simp: calls_def logged_apply children split: option.splits)
qed

text \<open>
  \<^bold>\<open>C8.\<close> The calls of \<^verbatim>\<open>walkHTML(root, v)\<close>: first \<^verbatim>\<open>v.visit(root)\<close>; if that returns \<^verbatim>\<open>nil\<close>,
  nothing more; otherwise the walks of the children of \<open>root\<close> in document order with
  the returned visitor, and then one call \<^verbatim>\<open>v.visit(nil)\<close> on the original visitor.
\<close>

theorem walkHTML_calls:
  "calls visit root v s =
     (case visit v (Some root) s of
        (None, s1) \<Rightarrow> [(v, Some root)]
      | (Some vv, s1) \<Rightarrow>
          (v, Some root) # calls_children visit (Children root) vv s1 @ [(v, None)])"
proof (cases root)
  case (Node ty a d at cs)
  have children:
    "fold (\<lambda>c. walkHTML (logged visit) c vv) cs (log, s') =
       (log @ calls_children visit cs vv s', fold (\<lambda>c. walkHTML visit c vv) cs s')"
    for vv log s'
    by (rule fold_logged) (rule walk_logged)
  show ?thesis
    unfolding Node
    by (cases "visit v (Some (Node ty a d at cs)) s")
       (auto simp: calls_def logged_apply children split: option.splits)
qed

section \<open>Termination on finite trees\<close>

text \<open>
  On a store that holds a finite tree the walk on pointers returns, and returns what
  the walk on the tree computes, when the visitor on pointers does what the visitor on
  trees does.
\<close>

lemma walkHTML_ptr_refines:
  assumes vis_some: "\<And>q u v s. is_tree H q u \<Longrightarrow> fuel_tree u \<le> N \<Longrightarrow>
                        pvisit v (Some q) s = Some (visit v (Some u) s)"
    and vis_none: "\<And>v s. pvisit v None s = Some (visit v None s)"
  shows "is_tree H p t \<Longrightarrow> fuel_tree t \<le> N \<Longrightarrow> fuel_tree t \<le> k \<Longrightarrow>
           walkHTML_ptr k H pvisit p v s = Some (walkHTML visit t v s)"
    and "is_forest H c ts \<Longrightarrow> fuel_forest ts \<le> N \<Longrightarrow> fuel_forest ts \<le> k \<Longrightarrow>
           walk_siblings k H pvisit c vv s = Some (fold (\<lambda>c. walkHTML visit c vv) ts s)"
proof (induction t and ts arbitrary: p k v s and c k vv s rule: fuel_tree_fuel_forest.induct)
  case (1 ty a d at cs)
  from "1.prems"(3) obtain k' where k: "k = Suc k'" and k': "fuel_forest cs \<le> k'"
    by (cases k) auto
  from "1.prems"(1) have forest: "is_forest H (hn_FirstChild (H p)) cs" by simp
  from "1.prems"(2) have N: "fuel_forest cs \<le> N" by simp
  note kids = "1.IH"[OF forest N k']
  from vis_some[OF "1.prems"(1,2)]
  have enter: "pvisit v (Some p) s = Some (visit v (Some (Node ty a d at cs)) s)" .
  show ?case
    unfolding k
    by (cases "visit v (Some (Node ty a d at cs)) s")
       (auto simp: enter kids vis_none split: option.splits)
next
  case 2
  then show ?case by (cases c; cases k) auto
next
  case (3 t ts)
  from "3.prems"(1) obtain q where c: "c = Some q" and tree: "is_tree H q t"
    and rest: "is_forest H (hn_NextSibling (H q)) ts"
    by (cases c) auto
  from "3.prems"(3) obtain k' where k: "k = Suc k'"
    and kt: "fuel_tree t \<le> k'" and kf: "fuel_forest ts \<le> k'"
    by (cases k) auto
  from "3.prems"(2) have Nt: "fuel_tree t \<le> N" and Nf: "fuel_forest ts \<le> N" by auto
  show ?case
    unfolding k c
    by (simp add: "3.IH"(1)[OF tree Nt kt] "3.IH"(2)[OF rest Nf kf])
qed

text \<open>With any visitor whose calls return, the walk returns.\<close>

lemma walkHTML_ptr_total:
  assumes total: "\<And>v n s. pvisit v n s \<noteq> None"
  shows "is_tree H p t \<Longrightarrow> fuel_tree t \<le> k \<Longrightarrow> walkHTML_ptr k H pvisit p v s \<noteq> None"
    and "is_forest H c ts \<Longrightarrow> fuel_forest ts \<le> k \<Longrightarrow> walk_siblings k H pvisit c vv s \<noteq> None"
proof (induction t and ts arbitrary: p k v s and c k vv s rule: fuel_tree_fuel_forest.induct)
  case (1 ty a d at cs)
  from "1.prems"(2) obtain k' where k: "k = Suc k'" and k': "fuel_forest cs \<le> k'"
    by (cases k) auto
  from "1.prems"(1) have forest: "is_forest H (hn_FirstChild (H p)) cs" by simp
  note kids = "1.IH"[OF forest k']
  from total[of v "Some p" s] obtain r s1 where enter: "pvisit v (Some p) s = Some (r, s1)"
    by auto
  show ?case
  proof (cases r)
    case None
    with enter show ?thesis unfolding k by simp
  next
    case (Some vv)
    from kids[of vv s1] obtain s2
      where s2: "walk_siblings k' H pvisit (hn_FirstChild (H p)) vv s1 = Some s2"
      by auto
    from total[of v None s2] enter Some s2 show ?thesis unfolding k by auto
  qed
next
  case 2
  then show ?case by (cases c; cases k) auto
next
  case (3 t ts)
  from "3.prems"(1) obtain q where c: "c = Some q" and tree: "is_tree H q t"
    and rest: "is_forest H (hn_NextSibling (H q)) ts"
    by (cases c) auto
  from "3.prems"(2) obtain k' where k: "k = Suc k'"
    and kt: "fuel_tree t \<le> k'" and kf: "fuel_forest ts \<le> k'"
    by (cases k) auto
  from "3.IH"(1)[OF tree kt, of vv s] obtain s1
    where s1: "walkHTML_ptr k' H pvisit q vv s = Some s1" by auto
  from "3.IH"(2)[OF rest kf, of vv s1] s1 show ?case
    unfolding k c by simp
qed

lemma flatten_ptr_flatten:
  assumes "is_tree H p t" and "fuel_tree t \<le> k"
  shows "flatten_ptr k H p = Some (flatten t)"
  unfolding flatten_ptr_def flatten_def
proof (rule walkHTML_ptr_refines(1)[where N = "fuel_tree t", OF _ _ assms(1) order_refl assms(2)])
  fix q u v s
  assume "is_tree H q u"
  then show "flattenVisitor_pvisit H v (Some q) s = Some (flattenVisitor_visit v (Some u) s)"
    by (cases u) simp
next
  fix v s
  show "flattenVisitor_pvisit H v None s = Some (flattenVisitor_visit v None s)" by simp
qed

lemma walkLinks_ptr_walkLinks:
  assumes "is_tree H p t" and "fuel_tree t \<le> k"
  shows "walkLinks_ptr X k H p = Some (walkLinks X t)"
  unfolding walkLinks_ptr_def walkLinks_def
proof (rule walkHTML_ptr_refines(1)[where N = k, OF _ _ assms(1) assms(2) assms(2)])
  fix q u v s
  assume tree: "is_tree H q u" and fuel: "fuel_tree u \<le> k"
  from flatten_ptr_flatten[OF tree fuel] have ctx: "flatten_ptr k H q = Some (flatten u)" .
  from tree
  have "hn_Type (H q) = Type u" "hn_DataAtom (H q) = DataAtom u" "hn_Attr (H q) = Attr u"
    by (cases u; simp)+
  then show "linkVisitor_pvisit X k H v (Some q) s = Some (linkVisitor_visit X v (Some u) s)"
    by (simp add: linkVisitor_pvisit_def ctx attr_def Let_def split: sum.splits)
next
  fix v s
  show "linkVisitor_pvisit X k H v None s = Some (linkVisitor_visit X v None s)"
    by (simp add: linkVisitor_pvisit_def)
qed

text \<open>
  Without the tree the walk need not return: where a node is its own first child,
  no bound is enough for \<^verbatim>\<open>flatten\<close>.
\<close>

lemma walk_cycle:
  "walkHTML_ptr k ex_cycle (flattenVisitor_pvisit ex_cycle) p () out = None \<and>
   walk_siblings k ex_cycle (flattenVisitor_pvisit ex_cycle) (Some p) () out = None"
proof (induction k arbitrary: p out)
  case 0
  show ?case by simp
next
  case (Suc k)
  have child: "hn_FirstChild (ex_cycle p) = Some p"
    by (simp add: ex_cycle_def hnode_def)
  from Suc[of p] show ?case
    by (simp add: child)
qed

lemma flatten_ptr_cycle: "flatten_ptr k ex_cycle 0 = None"
  by (simp add: flatten_ptr_def walk_cycle)

lemma is_tree_example: "is_tree ex_nodes 0 (ex_document [ex_a_out])"
  by (simp add: ex_nodes_def hnode_def ex_document_def ex_a_out_def element_def text_node_def)

lemma fuel_tree_example: "fuel_tree (ex_document [ex_a_out]) = 14"
  by (simp add: ex_document_def ex_a_out_def element_def text_node_def)

text \<open>
  \<^bold>\<open>C10.\<close> On a store that holds a finite tree at \<open>root\<close>, with a bound of at least
  \<open>fuel_tree t\<close>: \<^verbatim>\<open>walkHTML\<close> returns for every visitor whose calls return, \<^verbatim>\<open>flatten\<close> returns
  the text the walk on the tree computes, and the walk of \<^verbatim>\<open>findLinks\<close> returns the links
  the walk on the tree computes.
\<close>

theorem walkHTML_ptr_returns:
  assumes "is_tree H root t" and "fuel_tree t \<le> k" and "\<forall>v n s. pvisit v n s \<noteq> None"
  shows "(\<exists>s'. walkHTML_ptr k H pvisit root v s = Some s') \<and>
         flatten_ptr k H root = Some (flatten t) \<and>
         walkLinks_ptr X k H root = Some (walkLinks X t)"
proof -
  from assms(3) have "pvisit v n s \<noteq> None" for v n s by simp
  from walkHTML_ptr_total(1)[of pvisit, OF this assms(1,2)]
  have "\<exists>s'. walkHTML_ptr k H pvisit root v s = Some s'" by auto
  with flatten_ptr_flatten[OF assms(1,2)] walkLinks_ptr_walkLinks[OF assms(1,2)]
  show ?thesis by simp
qed

theorem walkHTML_ptr_returns_witness:
  "is_tree ex_nodes 0 (ex_document [ex_a_out]) \<and>
   fuel_tree (ex_document [ex_a_out]) \<le> 14 \<and>
   walkHTML_ptr 14 ex_nodes counting_pvisit 0 () 0 \<noteq> None \<and>
   flatten_ptr 14 ex_nodes 0 = Some ''out  there '' \<and>
   walkLinks_ptr ex_extern 14 ex_nodes 0 = Some [ex_link_out]"
proof -
  have fuel: "fuel_tree (ex_document [ex_a_out]) \<le> 14"
    by (simp add: fuel_tree_example)
  have total: "\<forall>v n s. counting_pvisit v n s \<noteq> None"
    by (simp add: counting_pvisit_def)
  have flat: "flatten (ex_document [ex_a_out]) = ''out  there ''"
    by (simp add: flatten_def ex_document_def ex_a_out_def element_def text_node_def)
  have links: "walkLinks ex_extern (ex_document [ex_a_out]) = [ex_link_out]"
    by (simp add: walkLinks_def ex_tree_defs attr_def flatten_def Let_def)
  from walkHTML_ptr_returns[OF is_tree_example fuel total, of "()" 0 ex_extern]
  show ?thesis
    using is_tree_example fuel by (auto simp: flat links)
qed

end
